theory Spec2Isabelle
  imports Main "HOL-Library.AList" "HOL-Library.Sublist" "HOL-Library.Multiset"
    "HOL-Library.Char_ord" "HOL-Library.List_Lexorder"
begin

section \<open>Strings and POSIX paths\<close>

text \<open>
  A Python \<open>str\<close> is a \<open>string\<close>, its characters the code points below 256, compared
  by code point; \<open>s.split(c)\<close> for a one-character separator always returns at least
  one piece, and \<open>s.strip()\<close> removes the characters of \<open>str.isspace\<close> at both ends.
\<close>

fun split_on :: "char \<Rightarrow> string \<Rightarrow> string list" where
  "split_on c [] = [] # []"
| "split_on c (x # xs) =
     (if x = c then [] # split_on c xs
      else (case split_on c xs of
              [] \<Rightarrow> [x] # []
            | w # ws \<Rightarrow> (x # w) # ws))"

fun join_with :: "string \<Rightarrow> string list \<Rightarrow> string" where
  "join_with sep [] = []"
| "join_with sep [x] = x"
| "join_with sep (x # y # ys) = x @ sep @ join_with sep (y # ys)"

definition isspace :: "char \<Rightarrow> bool" where
  "isspace c = (let n = of_char c :: nat in
     (9 \<le> n \<and> n \<le> 13) \<or> (28 \<le> n \<and> n \<le> 32) \<or> n = 133 \<or> n = 160)"

definition strip :: "string \<Rightarrow> string" where
  "strip s = rev (dropWhile isspace (rev (dropWhile isspace s)))"

text \<open>
  \<open>pathlib.PurePosixPath\<close>: a path is parsed into a root (\<open>''''\<close>, \<open>''/''\<close>, or \<open>''//''\<close>
  for exactly two leading slashes) and its name components, where empty components and
  \<open>''.''\<close> components are dropped.
\<close>

definition posix_root :: "string \<Rightarrow> string" where
  "posix_root p =
     (if take 1 p \<noteq> ''/'' then ''''
      else if take 1 (drop 1 p) \<noteq> ''/'' \<or> take 1 (drop 2 p) = ''/'' then ''/''
      else ''//'')"

definition posix_names :: "string \<Rightarrow> string list" where
  "posix_names p = filter (\<lambda>x. x \<noteq> [] \<and> x \<noteq> ''.'') (split_on CHR ''/'' p)"

definition is_relative_to :: "string \<Rightarrow> string \<Rightarrow> bool" where
  "is_relative_to sp path \<longleftrightarrow>
     posix_root sp = posix_root path \<and> prefix (posix_names path) (posix_names sp)"

definition as_posix :: "string \<Rightarrow> string list \<Rightarrow> string" where
  "as_posix root names =
     (if root = [] \<and> names = [] then ''.'' else root @ join_with ''/'' names)"

text \<open>\<open>PosixPath(p).parents\<close>, nearest first, each rendered with \<open>as_posix()\<close>.\<close>

definition posix_parents :: "string \<Rightarrow> string list" where
  "posix_parents p =
     (let r = posix_root p; ns = posix_names p
      in map (\<lambda>k. as_posix r (take k ns)) (rev [0 ..< length ns]))"

section \<open>Errors\<close>

datatype validation_message =
    OnePathMustBeGiven
  | MayNotBeginOrEndWithSlash string
  | BookmarksUnsupported
  | RecursiveRootSnapshot
  | DestroyingZpoolsNotAllowed
  | ProtectedPath string
  | OnlyOneAtAllowed string
  | MissingFilesystemName string
  | MissingSnapshotName string
  | OverlappingPaths string "string list"
  | UseGetSnapshots
  | PathsMustBeNonOverlapping

text \<open>
  What the storage engine raises: a \<open>ZFSException\<close> carries a \<open>ZFSError\<close> code; every
  other exception is only seen through \<open>str(e)\<close>.
\<close>

datatype zfs_error = EZFS_NOENT | EZFS_BUSY | EZFS_OTHER nat

datatype exn = ZFSException zfs_error string | OtherException string

fun str_exn :: "exn \<Rightarrow> string" where
  "str_exn (ZFSException code msg) = msg"
| "str_exn (OtherException msg) = msg"

datatype error =
    ValidationError string validation_message
  | IndexError
  | ValueError
  | Propagated exn

section \<open>The overlap analyzer: \<open>group_paths_by_parents\<close>\<close>

text \<open>
  The returned dict is an association list in insertion order; its keys are input paths,
  and a path occurring twice is inserted once (the second assignment overwrites an
  equal value).
\<close>

definition subpaths_of :: "string list \<Rightarrow> string \<Rightarrow> string list" where
  "subpaths_of paths path = filter (\<lambda>sp. is_relative_to sp path \<and> sp \<noteq> path) paths"

definition group_paths_by_parents :: "string list \<Rightarrow> (string \<times> string list) list" where
  "group_paths_by_parents paths =
     fold (\<lambda>path root_dict.
             let subpaths = subpaths_of paths path
             in if subpaths \<noteq> [] then AList.update path subpaths root_dict else root_dict)
          paths []"

section \<open>Destroy: validation and planning\<close>

text \<open>
  The request after the API defaults have been merged in (\<open>final\<close> in
  \<open>ZFSResourceService.destroy_impl\<close>); the key \<open>defer\<close> is the field \<open>defer_arg\<close>.
\<close>

record destroy_args =
  paths :: "string list"
  recursive :: bool
  force :: bool
  defer_arg :: bool
  allow_destroy_internal_paths :: bool

record script_arguments =
  sa_recursive :: bool
  sa_target :: string
  sa_defer :: bool
  sa_pattern :: "string option"

record channel_args =
  ca_path :: string
  ca_pool_name :: string
  ca_readonly :: bool
  ca_script_arguments_dict :: script_arguments

text \<open>
  What \<open>validate_and_parse_destroy_args\<close> adds to the request: \<open>fs_or_vols\<close> and the
  two lists of \<open>snapshots\<close>.
\<close>

record destroy_plan = destroy_args +
  fs_or_vols :: "string list"
  singular :: "string list"
  channel_programs :: "channel_args list"

datatype path_kind = FsOrVol | Snapshot

text \<open>
  One iteration of the first loop. \<open>has_internal_path\<close> lives outside the given sources
  and is a parameter \<open>hip\<close>. \<open>path[0]\<close> raises \<open>IndexError\<close> on the empty string.
\<close>

definition classify_path ::
  "(string \<Rightarrow> bool) \<Rightarrow> bool \<Rightarrow> bool \<Rightarrow> string \<Rightarrow> error + path_kind" where
  "classify_path hip adip rec path =
     (if path = [] then Inl IndexError
      else if hd path = CHR ''/'' \<or> last path = CHR ''/'' then
        Inl (ValidationError ''zfs.resource.destroy'' (MayNotBeginOrEndWithSlash path))
      else if CHR ''#'' \<in> set path then
        Inl (ValidationError ''zfs.resource.destroy'' BookmarksUnsupported)
      else if CHR ''/'' \<notin> set path then
        (if CHR ''@'' \<in> set path \<and> rec then
           Inl (ValidationError ''zfs.resource.destroy'' RecursiveRootSnapshot)
         else
           Inl (ValidationError ''zfs.resource.destroy'' DestroyingZpoolsNotAllowed))
      else if \<not> adip \<and> hip path then
        Inl (ValidationError ''zfs.resource.destroy'' (ProtectedPath path))
      else if CHR ''@'' \<in> set path then
        (let components = split_on CHR ''@'' path in
         if length components > 2 then
           Inl (ValidationError ''zfs.resource.destroy'' (OnlyOneAtAllowed path))
         else if strip (hd components) = [] then
           Inl (ValidationError ''zfs.resource.destroy'' (MissingFilesystemName path))
         else if strip (last components) = [] then
           Inl (ValidationError ''zfs.resource.destroy'' (MissingSnapshotName path))
         else Inr Snapshot)
      else Inr FsOrVol)"

text \<open>The first loop: the accumulator is \<open>(fs_or_vols, snapshots_temp)\<close>.\<close>

fun classify_paths ::
  "(string \<Rightarrow> bool) \<Rightarrow> bool \<Rightarrow> bool \<Rightarrow> string list \<Rightarrow> string list \<times> string list
     \<Rightarrow> error + string list \<times> string list" where
  "classify_paths hip adip rec [] acc = Inr acc"
| "classify_paths hip adip rec (path # rest) (fs, snaps) =
     (case classify_path hip adip rec path of
        Inl e \<Rightarrow> Inl e
      | Inr Snapshot \<Rightarrow> classify_paths hip adip rec rest (fs, snaps @ [path])
      | Inr FsOrVol \<Rightarrow> classify_paths hip adip rec rest (fs @ [path], snaps))"

text \<open>
  The overlap check: the \<open>for\<close> loop over the grouping raises at its first item.
\<close>

definition check_overlap :: "bool \<Rightarrow> string list \<Rightarrow> error + unit" where
  "check_overlap rec fs =
     (if rec then
        (case group_paths_by_parents fs of
           [] \<Rightarrow> Inr ()
         | (k, v) # _ \<Rightarrow> Inl (ValidationError ''zfs.resource.destroy'' (OverlappingPaths k v)))
      else Inr ())"

text \<open>
  The second loop, over \<open>snapshots_temp\<close>. Its accumulator is
  \<open>(singular, channel_programs)\<close>. The parameter \<open>path\<close> is the variable of the first
  loop, which still holds the last element of \<open>data["paths"]\<close>: the source appends it,
  not \<open>i\<close>, to \<open>singular\<close>.
\<close>

fun parse_snapshots ::
  "bool \<Rightarrow> bool \<Rightarrow> string list \<Rightarrow> string \<Rightarrow> string list \<Rightarrow> string list \<times> channel_args list
     \<Rightarrow> error + string list \<times> channel_args list" where
  "parse_snapshots rec dfr fs path [] acc = Inr acc"
| "parse_snapshots rec dfr fs path (i # rest) (sing, cps) =
     (case split_on CHR ''@'' i of
        [snap_source, snap_name] \<Rightarrow>
          if snap_source \<in> set fs then parse_snapshots rec dfr fs path rest (sing, cps)
          else if snap_name \<noteq> ''*'' \<and> \<not> rec then
            parse_snapshots rec dfr fs path rest (sing @ [path], cps)
          else
            parse_snapshots rec dfr fs path rest
              (sing,
               cps @ [\<lparr>ca_path = i,
                        ca_pool_name = hd (split_on CHR ''/'' snap_source),
                        ca_readonly = False,
                        ca_script_arguments_dict =
                          \<lparr>sa_recursive = rec, sa_target = snap_source, sa_defer = dfr,
                           sa_pattern = (if snap_name \<noteq> ''*'' then Some snap_name else None)\<rparr>\<rparr>])
      | _ \<Rightarrow> Inl ValueError)"

definition validate_and_parse_destroy_args ::
  "(string \<Rightarrow> bool) \<Rightarrow> destroy_args \<Rightarrow> error + destroy_plan" where
  "validate_and_parse_destroy_args hip data =
     (if paths data = [] then Inl (ValidationError ''zfs.resource.destroy'' OnePathMustBeGiven)
      else
        case classify_paths hip (allow_destroy_internal_paths data) (recursive data)
               (paths data) ([], []) of
          Inl e \<Rightarrow> Inl e
        | Inr (fs, snapshots_temp) \<Rightarrow>
            (case check_overlap (recursive data) fs of
               Inl e \<Rightarrow> Inl e
             | Inr _ \<Rightarrow>
                 (case parse_snapshots (recursive data) (defer_arg data) fs (last (paths data))
                         snapshots_temp ([], []) of
                    Inl e \<Rightarrow> Inl e
                  | Inr (sing, cps) \<Rightarrow>
                      Inr (destroy_args.extend data
                             \<lparr>fs_or_vols = fs, singular = sing, channel_programs = cps\<rparr>))))"

section \<open>Destroy: execution against the storage engine\<close>

datatype script = DESTROY_RESOURCES | DESTROY_SNAPSHOTS

datatype call =
    OpenResource string
  | Unmount string bool bool
  | DestroyResource string
  | RunChannelProgram string script script_arguments bool
  | DestroySnapshots "string list"

text \<open>
  The engine (\<open>hdl\<close> and \<open>lzc\<close>) is outside the sources. It is modelled by what it
  answers to a call after the calls made so far: \<open>None\<close> when the call returns,
  \<open>Some e\<close> when it raises \<open>e\<close>. \<open>Unmount name force recursive\<close> is
  \<open>rsrc.unmount\<close> on the resource opened under \<open>name\<close>.
\<close>

type_synonym engine = "call list \<Rightarrow> call \<Rightarrow> exn option"

datatype failure = DoesNotExist string | FailedToUnmount string | Message string

text \<open>
  \<open>DestroyState.results\<close> is a dict, kept as an association list in insertion order;
  \<open>calls\<close> records the engine calls made so far.
\<close>

record DestroyState =
  results :: "(string \<times> failure option) list"
  calls :: "call list"

definition invoke :: "engine \<Rightarrow> call \<Rightarrow> DestroyState \<Rightarrow> exn option \<times> DestroyState" where
  "invoke eng c st = (eng (calls st) c, st\<lparr>calls := calls st @ [c]\<rparr>)"

definition results_update :: "string \<Rightarrow> failure option \<Rightarrow> DestroyState \<Rightarrow> DestroyState" where
  "results_update k v st = st\<lparr>results := AList.update k v (results st)\<rparr>"

definition destroy_call :: "destroy_plan \<Rightarrow> string \<Rightarrow> call" where
  "destroy_call args i =
     (if recursive args then
        RunChannelProgram (hd (split_on CHR ''/'' i)) DESTROY_RESOURCES
          \<lparr>sa_recursive = recursive args, sa_target = i, sa_defer = defer_arg args,
           sa_pattern = None\<rparr> False
      else DestroyResource i)"

text \<open>
  The body of the loop of \<open>__destroy_fs_or_vols\<close>. Around \<open>open_resource\<close> and
  \<open>unmount\<close> only \<open>ZFSException\<close> is caught; any other exception leaves the function.
\<close>

definition destroy_fs_or_vol ::
  "engine \<Rightarrow> destroy_plan \<Rightarrow> string \<Rightarrow> DestroyState \<Rightarrow> exn + DestroyState" where
  "destroy_fs_or_vol eng args i st =
     (case invoke eng (OpenResource i) st of
        (Some (ZFSException code msg), st1) \<Rightarrow>
          if code = EZFS_NOENT then Inr (results_update i (Some (DoesNotExist i)) st1)
          else Inr (results_update i (Some (Message (str_exn (ZFSException code msg)))) st1)
      | (Some (OtherException msg), st1) \<Rightarrow> Inl (OtherException msg)
      | (None, st1) \<Rightarrow>
          (case invoke eng (Unmount i (force args) (recursive args)) st1 of
             (Some (ZFSException code msg), st2) \<Rightarrow>
               if code = EZFS_BUSY \<and> \<not> recursive args then
                 Inr (results_update i (Some (FailedToUnmount i)) st2)
               else Inr (results_update i (Some (Message (str_exn (ZFSException code msg)))) st2)
           | (Some (OtherException msg), st2) \<Rightarrow> Inl (OtherException msg)
           | (None, st2) \<Rightarrow>
               (case invoke eng (destroy_call args i) st2 of
                  (Some e, st3) \<Rightarrow> Inr (results_update i (Some (Message (str_exn e))) st3)
                | (None, st3) \<Rightarrow> Inr (results_update i None st3))))"

fun destroy_each :: "engine \<Rightarrow> destroy_plan \<Rightarrow> string list \<Rightarrow> DestroyState \<Rightarrow> exn + DestroyState" where
  "destroy_each eng args [] st = Inr st"
| "destroy_each eng args (i # rest) st =
     (case destroy_fs_or_vol eng args i st of
        Inl e \<Rightarrow> Inl e
      | Inr st' \<Rightarrow> destroy_each eng args rest st')"

text \<open>\<open>sorted(xs, reverse=True)\<close> on strings.\<close>

definition sorted_reverse :: "string list \<Rightarrow> string list" where
  "sorted_reverse xs = rev (sort xs)"

definition destroy_fs_or_vols :: "engine \<Rightarrow> destroy_plan \<Rightarrow> DestroyState \<Rightarrow> exn + DestroyState" where
  "destroy_fs_or_vols eng args st = destroy_each eng args (sorted_reverse (fs_or_vols args)) st"

text \<open>\<open>results.update({i: v for i in names})\<close>.\<close>

definition results_update_all :: "string list \<Rightarrow> failure option \<Rightarrow> DestroyState \<Rightarrow> DestroyState" where
  "results_update_all names v st = fold (\<lambda>i. results_update i v) names st"

definition destroy_singular :: "engine \<Rightarrow> destroy_plan \<Rightarrow> DestroyState \<Rightarrow> DestroyState" where
  "destroy_singular eng args st =
     (if singular args \<noteq> [] then
        (case invoke eng (DestroySnapshots (singular args)) st of
           (Some e, st1) \<Rightarrow> results_update_all (singular args) (Some (Message (str_exn e))) st1
         | (None, st1) \<Rightarrow> results_update_all (singular args) None st1)
      else st)"

definition destroy_channel_program :: "engine \<Rightarrow> channel_args \<Rightarrow> DestroyState \<Rightarrow> DestroyState" where
  "destroy_channel_program eng i st =
     (case invoke eng (RunChannelProgram (ca_pool_name i) DESTROY_SNAPSHOTS
                         (ca_script_arguments_dict i) (ca_readonly i)) st of
        (Some e, st1) \<Rightarrow> results_update (ca_path i) (Some (Message (str_exn e))) st1
      | (None, st1) \<Rightarrow> results_update (ca_path i) None st1)"

definition destroy_snapshots :: "engine \<Rightarrow> destroy_plan \<Rightarrow> DestroyState \<Rightarrow> DestroyState" where
  "destroy_snapshots eng args st =
     fold (destroy_channel_program eng) (channel_programs args) (destroy_singular eng args st)"

definition destroy_run :: "engine \<Rightarrow> destroy_plan \<Rightarrow> exn + DestroyState" where
  "destroy_run eng data =
     (case destroy_fs_or_vols eng data \<lparr>results = [], calls = []\<rparr> of
        Inl e \<Rightarrow> Inl e
      | Inr st \<Rightarrow> Inr (destroy_snapshots eng data st))"

text \<open>\<open>destroy_impl(hdl, data)\<close> of \<open>destroy_impl.py\<close> returns \<open>dstate.results\<close>.\<close>

definition destroy_impl :: "engine \<Rightarrow> destroy_plan \<Rightarrow> exn + (string \<times> failure option) list" where
  "destroy_impl eng data = map_sum id results (destroy_run eng data)"

text \<open>
  \<open>ZFSResourceService.destroy_impl\<close>: validate, then execute. The second component is
  the list of engine calls made.
\<close>

definition service_destroy ::
  "(string \<Rightarrow> bool) \<Rightarrow> engine \<Rightarrow> destroy_args \<Rightarrow> (error + DestroyState)" where
  "service_destroy hip eng data =
     (case validate_and_parse_destroy_args hip data of
        Inl e \<Rightarrow> Inl e
      | Inr plan \<Rightarrow>
          (case destroy_run eng plan of
             Inl e \<Rightarrow> Inl (Propagated e)
           | Inr st \<Rightarrow> Inr st))"

text \<open>
  The engine interface: \<open>open_resource\<close> and \<open>unmount\<close> fail with a \<open>ZFSException\<close>.
\<close>

definition raises_zfs_only :: "engine \<Rightarrow> bool" where
  "raises_zfs_only eng \<longleftrightarrow>
     (\<forall>log c m. (\<exists>n. c = OpenResource n) \<or> (\<exists>n f r. c = Unmount n f r)
        \<longrightarrow> eng log c \<noteq> Some (OtherException m))"

section \<open>Query: validation and nesting\<close>

text \<open>
  A resource record as \<open>nest_paths\<close> reads it: the keys \<open>name\<close>, \<open>pool\<close> and
  \<open>children\<close> (the other keys are carried along untouched and left out).
\<close>

datatype node = Node (name: string) (pool: string) (children: "node list")

text \<open>
  The items of \<open>flat_list\<close> are mutable dicts that \<open>nest_paths\<close> links by reference,
  so an item is identified by its position in \<open>flat_list\<close>, and the heap after the
  call is: the positions in \<open>roots\<close>, and for every position the positions appended to
  its \<open>children\<close>, in order.
\<close>

record nested =
  roots :: "nat list"
  appended :: "nat list list"

text \<open>First pass: \<open>node_map\<close> indexes the items by name (a later item wins).\<close>

fun index_pass ::
  "(nat \<times> node) list \<Rightarrow> (string \<rightharpoonup> nat) \<times> nat list \<Rightarrow> (string \<rightharpoonup> nat) \<times> nat list" where
  "index_pass [] acc = acc"
| "index_pass ((idx, item) # rest) (node_map, rts) =
     index_pass rest
       (node_map(name item \<mapsto> idx),
        if name item = pool item then rts @ [idx] else rts)"

text \<open>The inner \<open>for ... else\<close>: the nearest parent present in \<open>node_map\<close>.\<close>

fun nearest_parent :: "(string \<rightharpoonup> nat) \<Rightarrow> string list \<Rightarrow> nat option" where
  "nearest_parent node_map [] = None"
| "nearest_parent node_map (pap # rest) =
     (case node_map pap of
        Some j \<Rightarrow> Some j
      | None \<Rightarrow> nearest_parent node_map rest)"

fun link_pass :: "(string \<rightharpoonup> nat) \<Rightarrow> (nat \<times> node) list \<Rightarrow> nested \<Rightarrow> nested" where
  "link_pass node_map [] h = h"
| "link_pass node_map ((idx, item) # rest) h =
     (if name item = pool item then link_pass node_map rest h
      else
        case nearest_parent node_map (posix_parents (name item)) of
          Some j \<Rightarrow>
            link_pass node_map rest (h\<lparr>appended := (appended h)[j := appended h ! j @ [idx]]\<rparr>)
        | None \<Rightarrow> link_pass node_map rest (h\<lparr>roots := roots h @ [idx]\<rparr>))"

definition nest_paths :: "node list \<Rightarrow> nested" where
  "nest_paths flat_list =
     (let items = zip [0 ..< length flat_list] flat_list;
          (node_map, rts) = index_pass items (Map.empty, [])
      in link_pass node_map items
           \<lparr>roots = rts, appended = replicate (length flat_list) []\<rparr>)"

text \<open>
  Reading the heap back as a value: the tree below the item at position \<open>idx\<close>, to
  depth \<open>fuel\<close>; \<open>None\<close> when the links go deeper than that.
\<close>

fun tree_at :: "nat \<Rightarrow> node list \<Rightarrow> nat list list \<Rightarrow> nat \<Rightarrow> node option" where
  "tree_at 0 flat_list app idx = None"
| "tree_at (Suc fuel) flat_list app idx =
     map_option
       (\<lambda>cs. Node (name (flat_list ! idx)) (pool (flat_list ! idx))
                (children (flat_list ! idx) @ cs))
       (those (map (tree_at fuel flat_list app) (app ! idx)))"

definition nested_value :: "node list \<Rightarrow> node list option" where
  "nested_value flat_list =
     (let h = nest_paths flat_list
      in those (map (tree_at (Suc (length flat_list)) flat_list (appended h)) (roots h)))"

record query_args =
  q_paths :: "string list"
  q_properties :: "string list option"
  get_children :: bool
  get_snapshots :: bool
  nest_results :: bool

definition validate_query_args :: "query_args \<Rightarrow> error + unit" where
  "validate_query_args data =
     (if \<exists>path \<in> set (q_paths data). CHR ''@'' \<in> set path then
        Inl (ValidationError ''zfs.resource.query'' UseGetSnapshots)
      else if get_children data \<and> group_paths_by_parents (q_paths data) \<noteq> [] then
        Inl (ValidationError ''zfs.resource.query'' PathsMustBeNonOverlapping)
      else Inr ())"

datatype query_result = Flat "node list" | Nested "node list" nested

text \<open>
  \<open>ZFSResourceService.query_impl\<close>. The engine's query (\<open>query_impl\<close> of the module
  \<open>query_impl\<close>) and the API defaults \<open>base\<close> are outside the sources and are
  parameters; \<open>data\<close> is \<open>None\<close> or the explicit arguments merged over the defaults.
  The first component of the result lists the arguments of the engine queries made.
\<close>

definition query_impl ::
  "(query_args \<Rightarrow> exn + node list) \<Rightarrow> query_args \<Rightarrow> query_args option
     \<Rightarrow> query_args list \<times> (error + query_result)" where
  "query_impl engine_query base data =
     (let final = (case data of None \<Rightarrow> base | Some d \<Rightarrow> d);
          checked = (case data of None \<Rightarrow> Inr () | Some d \<Rightarrow> validate_query_args d)
      in case checked of
           Inl e \<Rightarrow> ([], Inl e)
         | Inr _ \<Rightarrow>
             (case engine_query final of
                Inl e \<Rightarrow> ([final], Inl (Propagated e))
              | Inr res \<Rightarrow>
                  ([final],
                   Inr (if nest_results final then Nested res (nest_paths res) else Flat res))))"

section \<open>Notions used to state the properties\<close>

text \<open>
  \<open>path\<close> is a strict ancestor of \<open>sp\<close>, component-wise: same root, and the name
  components of \<open>path\<close> are a proper prefix of those of \<open>sp\<close>.
\<close>

definition strict_ancestor :: "string \<Rightarrow> string \<Rightarrow> bool" where
  "strict_ancestor path sp \<longleftrightarrow>
     posix_root sp = posix_root path \<and> strict_prefix (posix_names path) (posix_names sp)"

text \<open>
  In the dataset namespace, \<open>d\<close> lies below \<open>a\<close> when its name is \<open>a\<close>, a slash, and
  more.
\<close>

definition dataset_below :: "string \<Rightarrow> string \<Rightarrow> bool" where
  "dataset_below d a \<longleftrightarrow> prefix (a @ ''/'') d"

text \<open>The two halves of a snapshot path \<open>source@name\<close>.\<close>

definition snap_source :: "string \<Rightarrow> string" where
  "snap_source i = hd (split_on CHR ''@'' i)"

definition snap_name :: "string \<Rightarrow> string" where
  "snap_name i = last (split_on CHR ''@'' i)"

text \<open>
  The engine calls one dataset or volume can give rise to, in order; the loop body makes
  a non-empty initial part of them.
\<close>

definition entry_calls :: "destroy_plan \<Rightarrow> string \<Rightarrow> call list" where
  "entry_calls args i =
     [OpenResource i, Unmount i (force args) (recursive args), destroy_call args i]"

definition entry_segment :: "destroy_plan \<Rightarrow> string \<Rightarrow> call list \<Rightarrow> bool" where
  "entry_segment args i seg \<longleftrightarrow> seg \<noteq> [] \<and> prefix seg (entry_calls args i)"

definition channel_call :: "channel_args \<Rightarrow> call" where
  "channel_call i =
     RunChannelProgram (ca_pool_name i) DESTROY_SNAPSHOTS (ca_script_arguments_dict i)
       (ca_readonly i)"

definition keys :: "('k \<times> 'v) list \<Rightarrow> 'k set" where
  "keys al = fst ` set al"

text \<open>
  What the executor is asked to record for a step, given what the engine answered:
  \<open>None\<close> for a call that returned, the message of a call that raised.
\<close>

definition outcome :: "exn option \<Rightarrow> failure option" where
  "outcome a = map_option (\<lambda>e. Message (str_exn e)) a"

text \<open>
  What is asked of one dataset or volume \<open>i\<close>, processed after the calls \<open>log\<close>: the
  engine calls made and the entry recorded under \<open>i\<close>. A failure to open ends the
  step, recorded as "does not exist" for \<open>EZFS_NOENT\<close>; so does a failure to unmount,
  recorded as the hint about children for \<open>EZFS_BUSY\<close> on a non-recursive request;
  any other failure is recorded by its message; otherwise the outcome of the destroy
  call is recorded.
\<close>

definition entry_outcome ::
  "engine \<Rightarrow> destroy_plan \<Rightarrow> call list \<Rightarrow> string \<Rightarrow> call list \<times> failure option" where
  "entry_outcome eng args log i =
     (case eng log (OpenResource i) of
        Some e \<Rightarrow>
          ([OpenResource i],
           Some (case e of
                   ZFSException code msg \<Rightarrow>
                     if code = EZFS_NOENT then DoesNotExist i else Message msg
                 | OtherException msg \<Rightarrow> Message msg))
      | None \<Rightarrow>
          (case eng (log @ [OpenResource i]) (Unmount i (force args) (recursive args)) of
             Some e \<Rightarrow>
               ([OpenResource i, Unmount i (force args) (recursive args)],
                Some (case e of
                        ZFSException code msg \<Rightarrow>
                          if code = EZFS_BUSY \<and> \<not> recursive args then FailedToUnmount i
                          else Message msg
                      | OtherException msg \<Rightarrow> Message msg))
           | None \<Rightarrow>
               (entry_calls args i,
                outcome (eng (log @ [OpenResource i, Unmount i (force args) (recursive args)])
                           (destroy_call args i)))))"

text \<open>
  Recording entries one after another in a dict: a later entry for the same path
  replaces the earlier one.
\<close>

definition record_all ::
  "(string \<times> failure option) list \<Rightarrow> (string \<times> failure option) list
     \<Rightarrow> (string \<times> failure option) list" where
  "record_all kvs al = fold (\<lambda>(k, v). AList.update k v) kvs al"

section \<open>Validation: path classification\<close>

lemma classify_paths_append:
  "classify_paths hip adip rec (xs @ ys) acc =
     (case classify_paths hip adip rec xs acc of
        Inl e \<Rightarrow> Inl e
      | Inr acc' \<Rightarrow> classify_paths hip adip rec ys acc')"
  by (induction xs arbitrary: acc)
     (auto split: sum.splits path_kind.splits)

text \<open>
  C3. The claim: a path without \<open>/\<close> is accepted exactly when it contains \<open>@\<close> and
  \<open>recursive\<close> is false. The code rejects every such path: at the pool-root snapshot
  \<open>tank@snap\<close> with \<open>recursive\<close> false it raises the \<open>ValidationError\<close> about
  destroying zpools.
\<close>

theorem pool_root_snapshot_rejected:
  "validate_and_parse_destroy_args hip
     \<lparr>paths = [''tank@snap''], recursive = False, force = f, defer_arg = d,
      allow_destroy_internal_paths = a\<rparr>
   = Inl (ValidationError ''zfs.resource.destroy'' DestroyingZpoolsNotAllowed)"
  by (simp add: validate_and_parse_destroy_args_def classify_path_def)

text \<open>
  C10. The empty path raises \<open>IndexError\<close>, not a \<open>ValidationError\<close>: a request whose
  paths up to an empty string all pass classification fails with \<open>IndexError\<close>.
\<close>

theorem empty_path_index_error:
  assumes "classify_paths hip (allow_destroy_internal_paths data) (recursive data) pre ([], [])
             = Inr acc"
    and "paths data = pre @ [] # post"
  shows "classify_path hip adip rec [] = Inl IndexError
         \<and> validate_and_parse_destroy_args hip data = Inl IndexError"
proof -
  have "classify_paths hip (allow_destroy_internal_paths data) (recursive data)
          (pre @ [] # post) ([], []) = Inl IndexError"
    using assms(1) by (cases acc) (simp add: classify_paths_append classify_path_def)
  then show ?thesis
    using assms(2) by (simp add: validate_and_parse_destroy_args_def classify_path_def)
qed

theorem empty_path_index_error_witness:
  "classify_paths (\<lambda>_. False) False False [''tank/a''] ([], []) = Inr ([''tank/a''], [])
   \<and> validate_and_parse_destroy_args (\<lambda>_. False)
       \<lparr>paths = [''tank/a'', [], ''/x''], recursive = False, force = False,
        defer_arg = False, allow_destroy_internal_paths = False\<rparr> = Inl IndexError"
  using empty_path_index_error [of "\<lambda>_. False"
      "\<lparr>paths = [''tank/a'', [], ''/x''], recursive = False, force = False,
        defer_arg = False, allow_destroy_internal_paths = False\<rparr>"
      "[''tank/a'']" "([''tank/a''], [])" "[''/x'']"]
  by (simp add: classify_path_def)

subsection \<open>What a validated request looks like\<close>

lemma split_on_nonempty: "split_on c s \<noteq> []"
  by (induction s) (auto split: list.splits)

lemma length_split_on: "length (split_on c s) = Suc (length (filter (\<lambda>x. x = c) s))"
  by (induction s) (auto split: list.splits simp: split_on_nonempty)

lemma classify_path_FsOrVol:
  "classify_path hip adip rec p = Inr FsOrVol \<Longrightarrow> CHR ''@'' \<notin> set p"
  by (auto simp: classify_path_def Let_def split: if_splits)

lemma classify_path_Snapshot:
  assumes "classify_path hip adip rec p = Inr Snapshot"
  shows "CHR ''@'' \<in> set p \<and> length (split_on CHR ''@'' p) = 2"
proof -
  from assms have at: "CHR ''@'' \<in> set p" and le: "length (split_on CHR ''@'' p) \<le> 2"
    by (auto simp: classify_path_def Let_def split: if_splits)
  from at have "filter (\<lambda>x. x = CHR ''@'') p \<noteq> []"
    by (auto simp: filter_empty_conv)
  then have "length (split_on CHR ''@'' p) \<ge> 2"
    by (cases "filter (\<lambda>x. x = CHR ''@'') p") (simp_all add: length_split_on)
  with at le show ?thesis by simp
qed

lemma classify_paths_result:
  "classify_paths hip adip rec xs (fs0, sn0) = Inr (fs, sn) \<Longrightarrow>
     fs = fs0 @ filter (\<lambda>p. CHR ''@'' \<notin> set p) xs
     \<and> sn = sn0 @ filter (\<lambda>p. CHR ''@'' \<in> set p) xs
     \<and> (\<forall>p\<in>set xs. CHR ''@'' \<in> set p \<longrightarrow> length (split_on CHR ''@'' p) = 2)"
proof (induction xs arbitrary: fs0 sn0)
  case Nil
  then show ?case by simp
next
  case (Cons x xs)
  show ?case
  proof (cases "classify_path hip adip rec x")
    case (Inl e)
    with Cons.prems show ?thesis by simp
  next
    case (Inr k)
    show ?thesis
    proof (cases k)
      case FsOrVol
      with Inr Cons.prems have "classify_paths hip adip rec xs (fs0 @ [x], sn0) = Inr (fs, sn)"
        by simp
      from Cons.IH [OF this] classify_path_FsOrVol [of hip adip rec x] Inr FsOrVol
      show ?thesis by simp
    next
      case Snapshot
      with Inr Cons.prems have "classify_paths hip adip rec xs (fs0, sn0 @ [x]) = Inr (fs, sn)"
        by simp
      from Cons.IH [OF this] classify_path_Snapshot [of hip adip rec x] Inr Snapshot
      show ?thesis by simp
    qed
  qed
qed

lemma two_components:
  "length (split_on c i) = 2 \<Longrightarrow> split_on c i = [hd (split_on c i), last (split_on c i)]"
  by (cases "split_on c i"; cases "tl (split_on c i)") auto

lemma parse_snapshots_result:
  "\<forall>i\<in>set snaps. length (split_on CHR ''@'' i) = 2 \<Longrightarrow>
   \<exists>sing cps. parse_snapshots rec dfr fs path snaps (sing0, cps0) = Inr (sing, cps)
     \<and> set sing \<subseteq> set sing0 \<union> {path}
     \<and> (rec \<longrightarrow> sing = sing0)
     \<and> map ca_path cps = map ca_path cps0 @
          filter (\<lambda>i. snap_source i \<notin> set fs \<and> (snap_name i = ''*'' \<or> rec)) snaps"
proof (induction snaps arbitrary: sing0 cps0)
  case Nil
  then show ?case by auto
next
  case (Cons i rest)
  then have two: "split_on CHR ''@'' i = [snap_source i, snap_name i]"
    and rest: "\<forall>i\<in>set rest. length (split_on CHR ''@'' i) = 2"
    using two_components [of "CHR ''@''" i] by (simp_all add: snap_source_def snap_name_def)
  consider (dropped) "snap_source i \<in> set fs"
    | (batch) "snap_source i \<notin> set fs" "snap_name i \<noteq> ''*''" "\<not> rec"
    | (channel) "snap_source i \<notin> set fs" "snap_name i = ''*'' \<or> rec"
    by blast
  then show ?case
  proof cases
    case dropped
    with two Cons.IH [OF rest, of sing0 cps0] show ?thesis by auto
  next
    case batch
    with two Cons.IH [OF rest, of "sing0 @ [path]" cps0] show ?thesis by auto
  next
    case channel
    define ca where "ca = \<lparr>ca_path = i,
                        ca_pool_name = hd (split_on CHR ''/'' (snap_source i)),
                        ca_readonly = False,
                        ca_script_arguments_dict =
                          \<lparr>sa_recursive = rec, sa_target = snap_source i, sa_defer = dfr,
                           sa_pattern = (if snap_name i \<noteq> ''*'' then Some (snap_name i) else None)\<rparr>\<rparr>"
    have step: "parse_snapshots rec dfr fs path (i # rest) (sing0, cps0)
                = parse_snapshots rec dfr fs path rest (sing0, cps0 @ [ca])"
      using channel two by (auto simp: ca_def)
    have "ca_path ca = i" by (simp add: ca_def)
    with channel step Cons.IH [OF rest, of sing0 "cps0 @ [ca]"] show ?thesis
      by auto
  qed
qed

lemma check_overlap_ok:
  "check_overlap rec fs = Inr () \<longleftrightarrow> \<not> rec \<or> group_paths_by_parents fs = []"
  by (auto simp: check_overlap_def split: list.splits)

lemma validate_from_classified:
  assumes ne: "paths data \<noteq> []"
    and cls: "classify_paths hip (allow_destroy_internal_paths data) (recursive data)
                (paths data) ([], []) = Inr (fs, snaps)"
    and ok: "check_overlap (recursive data) fs = Inr ()"
  shows "\<exists>plan. validate_and_parse_destroy_args hip data = Inr plan
           \<and> fs_or_vols plan = fs
           \<and> recursive plan = recursive data \<and> force plan = force data
           \<and> defer_arg plan = defer_arg data
           \<and> set (singular plan) \<subseteq> {last (paths data)}
           \<and> (recursive data \<longrightarrow> singular plan = [])
           \<and> map ca_path (channel_programs plan) =
               filter (\<lambda>i. snap_source i \<notin> set fs \<and> (snap_name i = ''*'' \<or> recursive data)) snaps"
proof -
  from classify_paths_result [OF cls]
  have sn: "snaps = filter (\<lambda>p. CHR ''@'' \<in> set p) (paths data)"
    and two: "\<forall>p\<in>set (paths data). CHR ''@'' \<in> set p \<longrightarrow> length (split_on CHR ''@'' p) = 2"
    by simp_all
  then have "\<forall>i\<in>set snaps. length (split_on CHR ''@'' i) = 2" by simp
  from parse_snapshots_result [OF this, of "recursive data" "defer_arg data" fs
      "last (paths data)" "[]" "[]"]
  obtain sing cps where
    ps: "parse_snapshots (recursive data) (defer_arg data) fs (last (paths data)) snaps ([], [])
          = Inr (sing, cps)"
    and s1: "set sing \<subseteq> {last (paths data)}"
    and s2: "recursive data \<longrightarrow> sing = []"
    and s3: "map ca_path cps =
               filter (\<lambda>i. snap_source i \<notin> set fs \<and> (snap_name i = ''*'' \<or> recursive data)) snaps"
    by auto
  have "validate_and_parse_destroy_args hip data
        = Inr (destroy_args.extend data
                 \<lparr>fs_or_vols = fs, singular = sing, channel_programs = cps\<rparr>)"
    using ne cls ok ps by (simp add: validate_and_parse_destroy_args_def)
  with s1 s2 s3 show ?thesis
    by (simp add: destroy_args.extend_def)
qed

lemma validate_Inr_classified:
  assumes "validate_and_parse_destroy_args hip data = Inr plan"
  shows "paths data \<noteq> []
         \<and> (\<exists>snaps. classify_paths hip (allow_destroy_internal_paths data) (recursive data)
                (paths data) ([], []) = Inr (fs_or_vols plan, snaps))
         \<and> check_overlap (recursive data) (fs_or_vols plan) = Inr ()"
  using assms
  by (auto simp: validate_and_parse_destroy_args_def destroy_args.extend_def
           split: if_splits sum.splits prod.splits)

lemma validated_plan:
  assumes v: "validate_and_parse_destroy_args hip data = Inr plan"
  shows "fs_or_vols plan = filter (\<lambda>p. CHR ''@'' \<notin> set p) (paths data)
         \<and> recursive plan = recursive data \<and> force plan = force data
         \<and> defer_arg plan = defer_arg data
         \<and> set (singular plan) \<subseteq> {last (paths data)}
         \<and> (recursive data \<longrightarrow> singular plan = [])
         \<and> map ca_path (channel_programs plan) =
             filter (\<lambda>i. snap_source i \<notin> set (fs_or_vols plan)
                          \<and> (snap_name i = ''*'' \<or> recursive data))
               (filter (\<lambda>p. CHR ''@'' \<in> set p) (paths data))"
proof -
  from validate_Inr_classified [OF v] obtain snaps where ne: "paths data \<noteq> []"
    and cls: "classify_paths hip (allow_destroy_internal_paths data) (recursive data)
                (paths data) ([], []) = Inr (fs_or_vols plan, snaps)"
    and ok: "check_overlap (recursive data) (fs_or_vols plan) = Inr ()"
    by blast
  from classify_paths_result [OF cls]
  have fs: "fs_or_vols plan = filter (\<lambda>p. CHR ''@'' \<notin> set p) (paths data)"
    and sn: "snaps = filter (\<lambda>p. CHR ''@'' \<in> set p) (paths data)"
    by simp_all
  from validate_from_classified [OF ne cls ok] v fs sn show ?thesis
    by auto
qed

lemma parse_snapshots_singular:
  "\<forall>i\<in>set snaps. length (split_on CHR ''@'' i) = 2 \<Longrightarrow>
   parse_snapshots rec dfr fs path snaps (sing0, cps0) = Inr (sing, cps) \<Longrightarrow>
   sing = sing0 @ replicate
            (length (filter (\<lambda>i. snap_source i \<notin> set fs \<and> snap_name i \<noteq> ''*'' \<and> \<not> rec) snaps))
            path"
proof (induction snaps arbitrary: sing0 cps0)
  case Nil
  then show ?case by simp
next
  case (Cons i rest)
  then have two: "split_on CHR ''@'' i = [snap_source i, snap_name i]"
    and rest: "\<forall>i\<in>set rest. length (split_on CHR ''@'' i) = 2"
    using two_components [of "CHR ''@''" i] by (simp_all add: snap_source_def snap_name_def)
  consider (dropped) "snap_source i \<in> set fs"
    | (batch) "snap_source i \<notin> set fs" "snap_name i \<noteq> ''*''" "\<not> rec"
    | (channel) "snap_source i \<notin> set fs" "snap_name i = ''*'' \<or> rec"
    by blast
  then show ?case
  proof cases
    case dropped
    with two Cons.prems(2) have "parse_snapshots rec dfr fs path rest (sing0, cps0) = Inr (sing, cps)"
      by simp
    from Cons.IH [OF rest this] dropped show ?thesis by simp
  next
    case batch
    with two Cons.prems(2)
    have "parse_snapshots rec dfr fs path rest (sing0 @ [path], cps0) = Inr (sing, cps)"
      by simp
    from Cons.IH [OF rest this] batch show ?thesis
      by (simp add: replicate_app_Cons_same)
  next
    case channel
    with two Cons.prems(2) obtain cps1
      where "parse_snapshots rec dfr fs path rest (sing0, cps1) = Inr (sing, cps)"
      by auto
    from Cons.IH [OF rest this] channel show ?thesis by auto
  qed
qed

lemma validated_singular:
  assumes v: "validate_and_parse_destroy_args hip data = Inr plan"
  shows "singular plan
         = replicate
             (length (filter (\<lambda>i. snap_source i \<notin> set (fs_or_vols plan)
                                    \<and> snap_name i \<noteq> ''*'' \<and> \<not> recursive data)
                        (filter (\<lambda>p. CHR ''@'' \<in> set p) (paths data))))
             (last (paths data))"
proof -
  from v obtain snaps where
    cls: "classify_paths hip (allow_destroy_internal_paths data) (recursive data)
                (paths data) ([], []) = Inr (fs_or_vols plan, snaps)"
    and ps: "parse_snapshots (recursive data) (defer_arg data) (fs_or_vols plan)
               (last (paths data)) snaps ([], []) = Inr (singular plan, channel_programs plan)"
    by (auto simp: validate_and_parse_destroy_args_def destroy_args.extend_def
             split: if_splits sum.splits prod.splits)
  from classify_paths_result [OF cls]
  have sn: "snaps = filter (\<lambda>p. CHR ''@'' \<in> set p) (paths data)"
    and two: "\<forall>i\<in>set snaps. length (split_on CHR ''@'' i) = 2"
    by simp_all
  from parse_snapshots_singular [OF two ps] sn show ?thesis by simp
qed

section \<open>The overlap analyzer\<close>

lemma strict_ancestor_relative:
  "strict_ancestor path sp \<Longrightarrow> is_relative_to sp path \<and> sp \<noteq> path"
  by (auto simp: strict_ancestor_def is_relative_to_def strict_prefix_def)

lemma subpaths_of_nonempty:
  "subpaths_of ps path \<noteq> [] \<longleftrightarrow> (\<exists>sp\<in>set ps. is_relative_to sp path \<and> sp \<noteq> path)"
  by (auto simp: subpaths_of_def filter_empty_conv)

lemma update_nonempty: "AList.update k v al \<noteq> []"
  by (cases al) auto

lemma group_fold_nil:
  "fold (\<lambda>path root_dict.
             let subpaths = g path
             in if subpaths \<noteq> [] then AList.update path subpaths root_dict else root_dict) xs d = []
   \<longleftrightarrow> d = [] \<and> (\<forall>p\<in>set xs. g p = [])"
  by (induction xs arbitrary: d) (auto simp: Let_def update_nonempty)

lemma group_fold_head:
  "\<exists>t'. fold (\<lambda>path root_dict.
             let subpaths = g path
             in if subpaths \<noteq> [] then AList.update path subpaths root_dict else root_dict) xs
            ((k, g k) # t) = (k, g k) # t'"
  by (induction xs arbitrary: t) (auto simp: Let_def)

lemma group_fold_first:
  "find (\<lambda>p. g p \<noteq> []) xs = Some k \<Longrightarrow>
   \<exists>t. fold (\<lambda>path root_dict.
             let subpaths = g path
             in if subpaths \<noteq> [] then AList.update path subpaths root_dict else root_dict) xs
            [] = (k, g k) # t"
proof (induction xs)
  case Nil
  then show ?case by simp
next
  case (Cons x xs)
  show ?case
  proof (cases "g x \<noteq> []")
    case True
    with Cons.prems have "x = k" by simp
    with True show ?thesis using group_fold_head [of g xs k "[]"] by (simp add: Let_def)
  next
    case False
    with Cons show ?thesis by (simp add: Let_def)
  qed
qed

lemma group_empty_iff:
  "group_paths_by_parents ps = [] \<longleftrightarrow>
     \<not> (\<exists>path\<in>set ps. \<exists>sp\<in>set ps. is_relative_to sp path \<and> sp \<noteq> path)"
  unfolding group_paths_by_parents_def group_fold_nil
  using subpaths_of_nonempty by blast

lemma group_first:
  "find (\<lambda>p. subpaths_of ps p \<noteq> []) ps = Some k \<Longrightarrow>
   \<exists>t. group_paths_by_parents ps = (k, subpaths_of ps k) # t"
  unfolding group_paths_by_parents_def by (rule group_fold_first)

text \<open>
  C4, as the code has it. Take a request with \<open>recursive\<close> true whose paths all pass
  classification, \<open>fs\<close> being its datasets and volumes. If \<open>fs\<close> holds two different
  path strings \<open>k\<close> and \<open>sp\<close> such that the components of \<open>sp\<close> begin with those of
  \<open>k\<close>, validation raises the \<open>ValidationError\<close> that names the first such \<open>k\<close> of
  \<open>fs\<close> and all the paths below it; every strict ancestor/descendant pair is such a
  pair. If \<open>fs\<close> holds no such pair, the grouping is empty and validation succeeds.
  Validation makes no engine call: it has no access to the engine.
\<close>

theorem recursive_overlap_validation:
  assumes rec: "recursive data"
    and ne: "paths data \<noteq> []"
    and cls: "classify_paths hip (allow_destroy_internal_paths data) (recursive data)
                (paths data) ([], []) = Inr (fs, snaps)"
  shows "((\<exists>k\<in>set fs. \<exists>sp\<in>set fs. is_relative_to sp k \<and> sp \<noteq> k) \<longrightarrow>
            (\<exists>k. find (\<lambda>p. subpaths_of fs p \<noteq> []) fs = Some k
               \<and> validate_and_parse_destroy_args hip data
                   = Inl (ValidationError ''zfs.resource.destroy''
                            (OverlappingPaths k (subpaths_of fs k)))))
       \<and> ((\<exists>k\<in>set fs. \<exists>sp\<in>set fs. strict_ancestor k sp) \<longrightarrow>
            (\<exists>k\<in>set fs. \<exists>sp\<in>set fs. is_relative_to sp k \<and> sp \<noteq> k))
       \<and> (\<not> (\<exists>k\<in>set fs. \<exists>sp\<in>set fs. is_relative_to sp k \<and> sp \<noteq> k) \<longrightarrow>
            group_paths_by_parents fs = []
            \<and> (\<exists>plan. validate_and_parse_destroy_args hip data = Inr plan
                   \<and> fs_or_vols plan = fs))"
proof (intro conjI impI)
  assume ov: "\<exists>k\<in>set fs. \<exists>sp\<in>set fs. is_relative_to sp k \<and> sp \<noteq> k"
  then have "\<exists>k\<in>set fs. subpaths_of fs k \<noteq> []"
    by (simp add: subpaths_of_nonempty)
  then obtain k where k: "find (\<lambda>p. subpaths_of fs p \<noteq> []) fs = Some k"
    by (cases "find (\<lambda>p. subpaths_of fs p \<noteq> []) fs") (auto simp: find_None_iff)
  from group_first [OF this] obtain t
    where "group_paths_by_parents fs = (k, subpaths_of fs k) # t" ..
  then have "check_overlap (recursive data) fs
             = Inl (ValidationError ''zfs.resource.destroy''
                      (OverlappingPaths k (subpaths_of fs k)))"
    using rec by (simp add: check_overlap_def)
  then have "validate_and_parse_destroy_args hip data
             = Inl (ValidationError ''zfs.resource.destroy''
                      (OverlappingPaths k (subpaths_of fs k)))"
    using ne cls by (simp add: validate_and_parse_destroy_args_def)
  with k show "\<exists>k. find (\<lambda>p. subpaths_of fs p \<noteq> []) fs = Some k
               \<and> validate_and_parse_destroy_args hip data
                   = Inl (ValidationError ''zfs.resource.destroy''
                            (OverlappingPaths k (subpaths_of fs k)))"
    by blast
next
  assume "\<exists>k\<in>set fs. \<exists>sp\<in>set fs. strict_ancestor k sp"
  then show "\<exists>k\<in>set fs. \<exists>sp\<in>set fs. is_relative_to sp k \<and> sp \<noteq> k"
    using strict_ancestor_relative by blast
next
  assume no: "\<not> (\<exists>k\<in>set fs. \<exists>sp\<in>set fs. is_relative_to sp k \<and> sp \<noteq> k)"
  then show g: "group_paths_by_parents fs = []"
    by (simp add: group_empty_iff)
  then have "check_overlap (recursive data) fs = Inr ()"
    by (simp add: check_overlap_ok)
  from validate_from_classified [OF ne cls this]
  show "\<exists>plan. validate_and_parse_destroy_args hip data = Inr plan \<and> fs_or_vols plan = fs"
    by blast
qed

theorem recursive_overlap_validation_witness:
  "(\<exists>k. find (\<lambda>p. subpaths_of [''tank/a'', ''tank/a/b''] p \<noteq> []) [''tank/a'', ''tank/a/b''] = Some k
      \<and> validate_and_parse_destroy_args (\<lambda>_. False)
          \<lparr>paths = [''tank/a'', ''tank/a/b''], recursive = True, force = False,
           defer_arg = False, allow_destroy_internal_paths = False\<rparr>
        = Inl (ValidationError ''zfs.resource.destroy''
                 (OverlappingPaths k (subpaths_of [''tank/a'', ''tank/a/b''] k))))
   \<and> (\<exists>plan. validate_and_parse_destroy_args (\<lambda>_. False)
          \<lparr>paths = [''tank/a'', ''tank/ab''], recursive = True, force = False,
           defer_arg = False, allow_destroy_internal_paths = False\<rparr> = Inr plan
        \<and> fs_or_vols plan = [''tank/a'', ''tank/ab''])"
proof -
  have c1: "classify_paths (\<lambda>_. False) False True [''tank/a'', ''tank/a/b''] ([], [])
            = Inr ([''tank/a'', ''tank/a/b''], [])"
    by (simp add: classify_path_def)
  have r1: "is_relative_to ''tank/a/b'' ''tank/a''"
    by (simp add: is_relative_to_def posix_root_def posix_names_def)
  have c2: "classify_paths (\<lambda>_. False) False True [''tank/a'', ''tank/ab''] ([], [])
            = Inr ([''tank/a'', ''tank/ab''], [])"
    by (simp add: classify_path_def)
  have r2: "\<not> is_relative_to ''tank/ab'' ''tank/a''" "\<not> is_relative_to ''tank/a'' ''tank/ab''"
    by (simp_all add: is_relative_to_def posix_root_def posix_names_def)
  show ?thesis
    using recursive_overlap_validation [of
        "\<lparr>paths = [''tank/a'', ''tank/a/b''], recursive = True, force = False,
           defer_arg = False, allow_destroy_internal_paths = False\<rparr>"
        "\<lambda>_. False" "[''tank/a'', ''tank/a/b'']" "[]"]
      recursive_overlap_validation [of
        "\<lparr>paths = [''tank/a'', ''tank/ab''], recursive = True, force = False,
           defer_arg = False, allow_destroy_internal_paths = False\<rparr>"
        "\<lambda>_. False" "[''tank/a'', ''tank/ab'']" "[]"]
      c1 r1 c2 r2
    by simp
qed

text \<open>
  The claim C4 as stated fails: \<open>tank/a\<close> and \<open>tank//a\<close> have the same components,
  so neither is a strict ancestor of the other, yet the grouping is not empty and
  validation raises.
\<close>

theorem overlap_without_strict_pair:
  "\<not> strict_ancestor ''tank/a'' ''tank//a'' \<and> \<not> strict_ancestor ''tank//a'' ''tank/a''
   \<and> \<not> strict_ancestor ''tank/a'' ''tank/a'' \<and> \<not> strict_ancestor ''tank//a'' ''tank//a''
   \<and> validate_and_parse_destroy_args (\<lambda>_. False)
        \<lparr>paths = [''tank/a'', ''tank//a''], recursive = True, force = False,
         defer_arg = False, allow_destroy_internal_paths = False\<rparr>
      = Inl (ValidationError ''zfs.resource.destroy''
               (OverlappingPaths ''tank/a'' [''tank//a'']))"
  by code_simp

text \<open>
  C9. A query with explicit arguments raises a \<open>ValidationError\<close>, and the engine's
  query is not called, when a path contains \<open>@\<close>, and when \<open>get_children\<close> is true and
  one path is a strict ancestor of another.
\<close>

theorem query_validation_rejects:
  assumes "(\<exists>p\<in>set (q_paths d). CHR ''@'' \<in> set p)
           \<or> (get_children d \<and> (\<exists>p\<in>set (q_paths d). \<exists>sp\<in>set (q_paths d). strict_ancestor p sp))"
  shows "\<exists>m. query_impl engine_query base (Some d)
              = ([], Inl (ValidationError ''zfs.resource.query'' m))"
proof (cases "\<exists>p\<in>set (q_paths d). CHR ''@'' \<in> set p")
  case True
  then show ?thesis by (simp add: query_impl_def validate_query_args_def)
next
  case False
  with assms obtain p sp where gc: "get_children d"
    and "p \<in> set (q_paths d)" "sp \<in> set (q_paths d)" "strict_ancestor p sp"
    by blast
  then have "group_paths_by_parents (q_paths d) \<noteq> []"
    using strict_ancestor_relative group_empty_iff by blast
  with gc False show ?thesis by (simp add: query_impl_def validate_query_args_def)
qed

theorem query_validation_rejects_witness:
  "strict_ancestor ''tank/a'' ''tank/a/b''
   \<and> (\<exists>m. query_impl (\<lambda>_. Inr [])
        \<lparr>q_paths = [], q_properties = None, get_children = False,
         get_snapshots = False, nest_results = False\<rparr>
        (Some \<lparr>q_paths = [''tank/a'', ''tank/a/b''], q_properties = None, get_children = True,
               get_snapshots = False, nest_results = False\<rparr>)
      = ([], Inl (ValidationError ''zfs.resource.query'' m)))"
proof -
  have sa: "strict_ancestor ''tank/a'' ''tank/a/b''"
    by (simp add: strict_ancestor_def posix_root_def posix_names_def)
  from query_validation_rejects [of
      "\<lparr>q_paths = [''tank/a'', ''tank/a/b''], q_properties = None, get_children = True,
        get_snapshots = False, nest_results = False\<rparr>" "\<lambda>_. Inr []"
      "\<lparr>q_paths = [], q_properties = None, get_children = False,
         get_snapshots = False, nest_results = False\<rparr>"] sa
  show ?thesis by simp
qed

section \<open>Planning: the batch of literal snapshots\<close>

text \<open>
  C2. The claim: the batch handed to \<open>destroy_snapshots\<close> holds exactly the literal,
  non-recursive snapshot paths of the request. The code appends the last path of the
  request once per such snapshot: for the two snapshots of the repository's test
  "Destroy multiple snapshots" the batch is the second one twice, and the first has no
  entry in the result.
\<close>

theorem singular_batch_collects_last_path:
  "service_destroy (\<lambda>_. False) (\<lambda>_ _. None)
     \<lparr>paths = [''tank/a@snap2'', ''tank/a@snap3''], recursive = False, force = False,
      defer_arg = False, allow_destroy_internal_paths = False\<rparr>
   = Inr \<lparr>results = [(''tank/a@snap3'', None)],
          calls = [DestroySnapshots [''tank/a@snap3'', ''tank/a@snap3'']]\<rparr>"
  by code_simp

section \<open>Execution\<close>

lemma keys_update: "keys (AList.update k v al) = insert k (keys al)"
  by (simp add: keys_def dom_update)

lemma calls_results_update [simp]: "calls (results_update k v st) = calls st"
  by (simp add: results_update_def)

lemma results_results_update [simp]:
  "results (results_update k v st) = AList.update k v (results st)"
  by (simp add: results_update_def)

lemma invoke_simps [simp]:
  "fst (invoke eng c st) = eng (calls st) c"
  "calls (snd (invoke eng c st)) = calls st @ [c]"
  "results (snd (invoke eng c st)) = results st"
  by (simp_all add: invoke_def)

lemma raises_zfs_only_open:
  "raises_zfs_only eng \<Longrightarrow> eng log (OpenResource n) \<noteq> Some (OtherException m)"
  by (auto simp: raises_zfs_only_def)

lemma raises_zfs_only_unmount:
  "raises_zfs_only eng \<Longrightarrow> eng log (Unmount n f r) \<noteq> Some (OtherException m)"
  by (auto simp: raises_zfs_only_def)

lemma destroy_fs_or_vol_step:
  assumes "raises_zfs_only eng"
  shows "\<exists>st' seg v. destroy_fs_or_vol eng args i st = Inr st'
           \<and> calls st' = calls st @ seg \<and> entry_segment args i seg
           \<and> results st' = AList.update i v (results st)"
proof (cases "eng (calls st) (OpenResource i)")
  case (Some e)
  with raises_zfs_only_open [OF assms] obtain code msg where "e = ZFSException code msg"
    by (cases e) auto
  with Some show ?thesis
    by (auto simp: destroy_fs_or_vol_def invoke_def entry_segment_def entry_calls_def)
next
  case None
  note opened = this
  show ?thesis
  proof (cases "eng (calls st @ [OpenResource i]) (Unmount i (force args) (recursive args))")
    case (Some e)
    with raises_zfs_only_unmount [OF assms] obtain code msg where "e = ZFSException code msg"
      by (cases e) auto
    with Some opened show ?thesis
      by (auto simp: destroy_fs_or_vol_def invoke_def entry_segment_def entry_calls_def)
  next
    case None
    with opened show ?thesis
      by (cases "eng (calls st @ [OpenResource i, Unmount i (force args) (recursive args)])
                   (destroy_call args i)")
         (auto simp: destroy_fs_or_vol_def invoke_def entry_segment_def entry_calls_def)
  qed
qed

lemma destroy_each_trace:
  assumes "raises_zfs_only eng"
  shows "\<exists>st' segs. destroy_each eng args xs st = Inr st'
           \<and> calls st' = calls st @ concat segs \<and> list_all2 (entry_segment args) xs segs
           \<and> keys (results st') = keys (results st) \<union> set xs
           \<and> (distinct (map fst (results st)) \<longrightarrow> distinct (map fst (results st')))"
proof (induction xs arbitrary: st)
  case Nil
  then show ?case by simp
next
  case (Cons i rest)
  from destroy_fs_or_vol_step [OF assms, of args i st]
  obtain st1 seg v where s1: "destroy_fs_or_vol eng args i st = Inr st1"
    and c1: "calls st1 = calls st @ seg" and e1: "entry_segment args i seg"
    and r1: "results st1 = AList.update i v (results st)"
    by blast
  from Cons.IH [of st1]
  obtain st' segs where s2: "destroy_each eng args rest st1 = Inr st'"
    and c2: "calls st' = calls st1 @ concat segs"
    and e2: "list_all2 (entry_segment args) rest segs"
    and k2: "keys (results st') = keys (results st1) \<union> set rest"
    and d2: "distinct (map fst (results st1)) \<longrightarrow> distinct (map fst (results st'))"
    by blast
  have "destroy_each eng args (i # rest) st = Inr st'"
    using s1 s2 by simp
  moreover have "calls st' = calls st @ concat (seg # segs)"
    using c1 c2 by simp
  moreover have "list_all2 (entry_segment args) (i # rest) (seg # segs)"
    using e1 e2 by simp
  moreover have "keys (results st') = keys (results st) \<union> set (i # rest)"
    using k2 r1 by (simp add: keys_update)
  moreover have "distinct (map fst (results st)) \<longrightarrow> distinct (map fst (results st'))"
    using d2 r1 by (simp add: distinct_update)
  ultimately show ?case by blast
qed

lemma results_update_all_props:
  "calls (results_update_all names v st) = calls st
   \<and> keys (results (results_update_all names v st)) = keys (results st) \<union> set names
   \<and> (distinct (map fst (results st)) \<longrightarrow>
        distinct (map fst (results (results_update_all names v st))))"
  unfolding results_update_all_def
  by (induction names arbitrary: st) (auto simp: keys_update distinct_update)

lemma destroy_singular_props:
  "calls (destroy_singular eng args st)
     = calls st @ (if singular args \<noteq> [] then [DestroySnapshots (singular args)] else [])
   \<and> keys (results (destroy_singular eng args st)) = keys (results st) \<union> set (singular args)
   \<and> (distinct (map fst (results st)) \<longrightarrow>
        distinct (map fst (results (destroy_singular eng args st))))"
  by (cases "eng (calls st) (DestroySnapshots (singular args))")
     (simp_all add: destroy_singular_def invoke_def results_update_all_props)

lemma destroy_channel_program_props:
  "calls (destroy_channel_program eng i st) = calls st @ [channel_call i]
   \<and> keys (results (destroy_channel_program eng i st)) = insert (ca_path i) (keys (results st))
   \<and> (distinct (map fst (results st)) \<longrightarrow>
        distinct (map fst (results (destroy_channel_program eng i st))))"
  by (cases "eng (calls st) (channel_call i)")
     (simp_all add: destroy_channel_program_def channel_call_def invoke_def keys_update
        distinct_update)

lemma fold_channel_programs_props:
  "calls (fold (destroy_channel_program eng) cps st) = calls st @ map channel_call cps
   \<and> keys (results (fold (destroy_channel_program eng) cps st))
       = keys (results st) \<union> ca_path ` set cps
   \<and> (distinct (map fst (results st)) \<longrightarrow>
        distinct (map fst (results (fold (destroy_channel_program eng) cps st))))"
  by (induction cps arbitrary: st) (auto simp: destroy_channel_program_props)

lemma destroy_snapshots_props:
  "calls (destroy_snapshots eng args st)
     = calls st @ (if singular args \<noteq> [] then [DestroySnapshots (singular args)] else [])
         @ map channel_call (channel_programs args)
   \<and> keys (results (destroy_snapshots eng args st))
       = keys (results st) \<union> set (singular args) \<union> ca_path ` set (channel_programs args)
   \<and> (distinct (map fst (results st)) \<longrightarrow>
        distinct (map fst (results (destroy_snapshots eng args st))))"
  unfolding destroy_snapshots_def
  by (simp add: fold_channel_programs_props destroy_singular_props)

lemma destroy_run_trace:
  assumes "raises_zfs_only eng"
  shows "\<exists>st segs. destroy_run eng args = Inr st
           \<and> list_all2 (entry_segment args) (sorted_reverse (fs_or_vols args)) segs
           \<and> calls st = concat segs
                 @ (if singular args \<noteq> [] then [DestroySnapshots (singular args)] else [])
                 @ map channel_call (channel_programs args)
           \<and> keys (results st)
               = set (fs_or_vols args) \<union> set (singular args)
                   \<union> ca_path ` set (channel_programs args)
           \<and> distinct (map fst (results st))"
proof -
  from destroy_each_trace [OF assms, of args "sorted_reverse (fs_or_vols args)"
      "\<lparr>results = [], calls = []\<rparr>"]
  obtain st1 segs where "destroy_fs_or_vols eng args \<lparr>results = [], calls = []\<rparr> = Inr st1"
    and "calls st1 = concat segs"
    and "list_all2 (entry_segment args) (sorted_reverse (fs_or_vols args)) segs"
    and "keys (results st1) = set (fs_or_vols args)"
    and "distinct (map fst (results st1))"
    by (auto simp: destroy_fs_or_vols_def keys_def sorted_reverse_def)
  then show ?thesis
    using destroy_snapshots_props [of eng args st1]
    by (auto simp: destroy_run_def)
qed

lemma service_destroy_trace:
  assumes e: "raises_zfs_only eng"
    and v: "validate_and_parse_destroy_args hip data = Inr plan"
  shows "\<exists>st segs. service_destroy hip eng data = Inr st
           \<and> list_all2 (entry_segment plan) (sorted_reverse (fs_or_vols plan)) segs
           \<and> calls st = concat segs
                 @ (if singular plan \<noteq> [] then [DestroySnapshots (singular plan)] else [])
                 @ map channel_call (channel_programs plan)
           \<and> keys (results st)
               = set (fs_or_vols plan) \<union> set (singular plan)
                   \<union> ca_path ` set (channel_programs plan)
           \<and> distinct (map fst (results st))"
proof -
  from destroy_run_trace [OF e, of plan] obtain st segs
    where "destroy_run eng plan = Inr st"
      and "list_all2 (entry_segment plan) (sorted_reverse (fs_or_vols plan)) segs"
      and "calls st = concat segs
                 @ (if singular plan \<noteq> [] then [DestroySnapshots (singular plan)] else [])
                 @ map channel_call (channel_programs plan)"
      and "keys (results st)
               = set (fs_or_vols plan) \<union> set (singular plan)
                   \<union> ca_path ` set (channel_programs plan)"
      and "distinct (map fst (results st))"
    by blast
  then show ?thesis
    using v by (auto simp: service_destroy_def)
qed

subsection \<open>The calls and entries of an execution\<close>

lemma record_all_simps [simp]:
  "record_all [] al = al"
  "record_all ((k, v) # kvs) al = record_all kvs (AList.update k v al)"
  "record_all (xs @ ys) al = record_all ys (record_all xs al)"
  by (simp_all add: record_all_def)


lemma destroy_fs_or_vol_exact:
  assumes "raises_zfs_only eng"
  shows "destroy_fs_or_vol eng args i st
         = Inr \<lparr>results = AList.update i (snd (entry_outcome eng args (calls st) i)) (results st),
                calls = calls st @ fst (entry_outcome eng args (calls st) i)\<rparr>"
proof (cases "eng (calls st) (OpenResource i)")
  case (Some e)
  with raises_zfs_only_open [OF assms] obtain code msg where "e = ZFSException code msg"
    by (cases e) auto
  with Some show ?thesis
    by (simp add: destroy_fs_or_vol_def invoke_def results_update_def entry_outcome_def)
next
  case None
  note opened = this
  show ?thesis
  proof (cases "eng (calls st @ [OpenResource i]) (Unmount i (force args) (recursive args))")
    case (Some e)
    with raises_zfs_only_unmount [OF assms] obtain code msg where "e = ZFSException code msg"
      by (cases e) auto
    with Some opened show ?thesis
      by (simp add: destroy_fs_or_vol_def invoke_def results_update_def entry_outcome_def)
  next
    case None
    with opened show ?thesis
      by (cases "eng (calls st @ [OpenResource i, Unmount i (force args) (recursive args)])
                   (destroy_call args i)")
         (simp_all add: destroy_fs_or_vol_def invoke_def results_update_def entry_outcome_def
            entry_calls_def outcome_def)
  qed
qed

lemma destroy_each_exact:
  assumes "raises_zfs_only eng"
  shows "\<exists>segs vs. length segs = length xs \<and> length vs = length xs
           \<and> (\<forall>k<length xs. (segs ! k, vs ! k)
                  = entry_outcome eng args (calls st @ concat (take k segs)) (xs ! k))
           \<and> destroy_each eng args xs st
               = Inr \<lparr>results = record_all (zip xs vs) (results st),
                      calls = calls st @ concat segs\<rparr>"
proof (induction xs arbitrary: st)
  case Nil
  show ?case by simp
next
  case (Cons i rest)
  define seg where "seg = fst (entry_outcome eng args (calls st) i)"
  define v where "v = snd (entry_outcome eng args (calls st) i)"
  define st1 where "st1 = \<lparr>results = AList.update i v (results st), calls = calls st @ seg\<rparr>"
  have s1: "destroy_fs_or_vol eng args i st = Inr st1"
    unfolding st1_def seg_def v_def by (rule destroy_fs_or_vol_exact [OF assms])
  from Cons.IH [of st1] obtain segs vs where l1: "length segs = length rest"
    and l2: "length vs = length rest"
    and each: "\<forall>k<length rest. (segs ! k, vs ! k)
                  = entry_outcome eng args (calls st1 @ concat (take k segs)) (rest ! k)"
    and run: "destroy_each eng args rest st1
               = Inr \<lparr>results = record_all (zip rest vs) (results st1),
                      calls = calls st1 @ concat segs\<rparr>"
    by blast
  have "\<forall>k<length (i # rest). ((seg # segs) ! k, (v # vs) ! k)
          = entry_outcome eng args (calls st @ concat (take k (seg # segs))) ((i # rest) ! k)"
  proof (intro allI impI)
    fix k assume k: "k < length (i # rest)"
    show "((seg # segs) ! k, (v # vs) ! k)
          = entry_outcome eng args (calls st @ concat (take k (seg # segs))) ((i # rest) ! k)"
    proof (cases k)
      case 0
      then show ?thesis by (simp add: seg_def v_def)
    next
      case (Suc j)
      with k each show ?thesis by (simp add: st1_def)
    qed
  qed
  moreover have "destroy_each eng args (i # rest) st
               = Inr \<lparr>results = record_all (zip (i # rest) (v # vs)) (results st),
                      calls = calls st @ concat (seg # segs)\<rparr>"
    using s1 run by (simp add: st1_def)
  moreover have "length (seg # segs) = length (i # rest)" "length (v # vs) = length (i # rest)"
    using l1 l2 by simp_all
  ultimately show ?case by blast
qed

lemma destroy_singular_exact:
  "destroy_singular eng args st
   = \<lparr>results = record_all
                  (map (\<lambda>p. (p, outcome (eng (calls st) (DestroySnapshots (singular args)))))
                     (singular args))
                  (results st),
      calls = calls st
        @ (if singular args \<noteq> [] then [DestroySnapshots (singular args)] else [])\<rparr>"
proof -
  have upd: "\<And>names v s. results_update_all names v s
               = \<lparr>results = record_all (map (\<lambda>p. (p, v)) names) (results s), calls = calls s\<rparr>"
  proof -
    fix names v and s :: DestroyState
    show "results_update_all names v s
               = \<lparr>results = record_all (map (\<lambda>p. (p, v)) names) (results s), calls = calls s\<rparr>"
      unfolding results_update_all_def
      by (induction names arbitrary: s) (simp_all add: results_update_def)
  qed
  show ?thesis
    by (cases "eng (calls st) (DestroySnapshots (singular args))")
       (simp_all add: destroy_singular_def invoke_def upd outcome_def)
qed

lemma destroy_channel_program_exact:
  "destroy_channel_program eng c st
   = \<lparr>results = AList.update (ca_path c) (outcome (eng (calls st) (channel_call c))) (results st),
      calls = calls st @ [channel_call c]\<rparr>"
  by (cases "eng (calls st) (channel_call c)")
     (simp_all add: destroy_channel_program_def invoke_def channel_call_def outcome_def
        results_update_def)

lemma fold_channel_programs_exact:
  "\<exists>ws. length ws = length cps
     \<and> (\<forall>k<length cps. ws ! k
            = outcome (eng (calls st @ map channel_call (take k cps)) (channel_call (cps ! k))))
     \<and> fold (destroy_channel_program eng) cps st
         = \<lparr>results = record_all (zip (map ca_path cps) ws) (results st),
            calls = calls st @ map channel_call cps\<rparr>"
proof (induction cps arbitrary: st)
  case Nil
  show ?case by simp
next
  case (Cons c rest)
  define w where "w = outcome (eng (calls st) (channel_call c))"
  define st1 where "st1 = \<lparr>results = AList.update (ca_path c) w (results st),
                             calls = calls st @ [channel_call c]\<rparr>"
  have s1: "destroy_channel_program eng c st = st1"
    unfolding st1_def w_def by (rule destroy_channel_program_exact)
  from Cons.IH [of st1] obtain ws where l: "length ws = length rest"
    and each: "\<forall>k<length rest. ws ! k
            = outcome (eng (calls st1 @ map channel_call (take k rest)) (channel_call (rest ! k)))"
    and run: "fold (destroy_channel_program eng) rest st1
         = \<lparr>results = record_all (zip (map ca_path rest) ws) (results st1),
            calls = calls st1 @ map channel_call rest\<rparr>"
    by blast
  have "\<forall>k<length (c # rest). (w # ws) ! k
            = outcome (eng (calls st @ map channel_call (take k (c # rest)))
                         (channel_call ((c # rest) ! k)))"
  proof (intro allI impI)
    fix k assume k: "k < length (c # rest)"
    show "(w # ws) ! k
            = outcome (eng (calls st @ map channel_call (take k (c # rest)))
                         (channel_call ((c # rest) ! k)))"
    proof (cases k)
      case 0
      then show ?thesis by (simp add: w_def)
    next
      case (Suc j)
      with k each show ?thesis by (simp add: st1_def)
    qed
  qed
  moreover have "fold (destroy_channel_program eng) (c # rest) st
         = \<lparr>results = record_all (zip (map ca_path (c # rest)) (w # ws)) (results st),
            calls = calls st @ map channel_call (c # rest)\<rparr>"
    using s1 run by (simp add: st1_def)
  moreover have "length (w # ws) = length (c # rest)"
    using l by simp
  ultimately show ?case by blast
qed

lemma service_destroy_exact:
  assumes e: "raises_zfs_only eng"
    and v: "validate_and_parse_destroy_args hip data = Inr plan"
  shows "\<exists>segs vs ws.
           length segs = length (fs_or_vols plan) \<and> length vs = length (fs_or_vols plan)
           \<and> length ws = length (channel_programs plan)
           \<and> (\<forall>k<length (fs_or_vols plan). (segs ! k, vs ! k)
                  = entry_outcome eng plan (concat (take k segs))
                      (sorted_reverse (fs_or_vols plan) ! k))
           \<and> (\<forall>k<length (channel_programs plan). ws ! k
                  = outcome (eng (concat segs
                       @ (if singular plan \<noteq> [] then [DestroySnapshots (singular plan)] else [])
                       @ map channel_call (take k (channel_programs plan)))
                      (channel_call (channel_programs plan ! k))))
           \<and> service_destroy hip eng data
               = Inr \<lparr>results = record_all
                        (zip (sorted_reverse (fs_or_vols plan)) vs
                         @ map (\<lambda>p. (p, outcome (eng (concat segs)
                                                    (DestroySnapshots (singular plan)))))
                             (singular plan)
                         @ zip (map ca_path (channel_programs plan)) ws) [],
                      calls = concat segs
                        @ (if singular plan \<noteq> [] then [DestroySnapshots (singular plan)] else [])
                        @ map channel_call (channel_programs plan)\<rparr>"
proof -
  have len: "length (sorted_reverse (fs_or_vols plan)) = length (fs_or_vols plan)"
    by (simp add: sorted_reverse_def)
  from destroy_each_exact [OF e, of "sorted_reverse (fs_or_vols plan)" plan
      "\<lparr>results = [], calls = []\<rparr>"] len
  obtain segs vs where l1: "length segs = length (fs_or_vols plan)"
    and l2: "length vs = length (fs_or_vols plan)"
    and each: "\<forall>k<length (fs_or_vols plan). (segs ! k, vs ! k)
                  = entry_outcome eng plan (concat (take k segs))
                      (sorted_reverse (fs_or_vols plan) ! k)"
    and run: "destroy_fs_or_vols eng plan \<lparr>results = [], calls = []\<rparr>
               = Inr \<lparr>results = record_all (zip (sorted_reverse (fs_or_vols plan)) vs) [],
                      calls = concat segs\<rparr>"
    by (auto simp: destroy_fs_or_vols_def)
  define st1 where "st1 = \<lparr>results = record_all (zip (sorted_reverse (fs_or_vols plan)) vs) [],
                      calls = concat segs\<rparr>"
  define st2 where "st2 = destroy_singular eng plan st1"
  have st2: "st2 = \<lparr>results = record_all
                  (map (\<lambda>p. (p, outcome (eng (concat segs) (DestroySnapshots (singular plan)))))
                     (singular plan))
                  (results st1),
      calls = concat segs
        @ (if singular plan \<noteq> [] then [DestroySnapshots (singular plan)] else [])\<rparr>"
    unfolding st2_def using destroy_singular_exact [of eng plan st1] by (simp add: st1_def)
  from fold_channel_programs_exact [of "channel_programs plan" eng st2]
  obtain ws where l3: "length ws = length (channel_programs plan)"
    and eachw: "\<forall>k<length (channel_programs plan). ws ! k
            = outcome (eng (calls st2 @ map channel_call (take k (channel_programs plan)))
                         (channel_call (channel_programs plan ! k)))"
    and runw: "fold (destroy_channel_program eng) (channel_programs plan) st2
         = \<lparr>results = record_all (zip (map ca_path (channel_programs plan)) ws) (results st2),
            calls = calls st2 @ map channel_call (channel_programs plan)\<rparr>"
    by blast
  have "service_destroy hip eng data
        = Inr (fold (destroy_channel_program eng) (channel_programs plan) st2)"
    using v run by (simp add: service_destroy_def destroy_run_def destroy_snapshots_def
        st1_def st2_def)
  then have "service_destroy hip eng data
               = Inr \<lparr>results = record_all
                        (zip (sorted_reverse (fs_or_vols plan)) vs
                         @ map (\<lambda>p. (p, outcome (eng (concat segs)
                                                    (DestroySnapshots (singular plan)))))
                             (singular plan)
                         @ zip (map ca_path (channel_programs plan)) ws) [],
                      calls = concat segs
                        @ (if singular plan \<noteq> [] then [DestroySnapshots (singular plan)] else [])
                        @ map channel_call (channel_programs plan)\<rparr>"
    using runw st2 by (simp add: st1_def)
  moreover have "\<forall>k<length (channel_programs plan). ws ! k
                  = outcome (eng (concat segs
                       @ (if singular plan \<noteq> [] then [DestroySnapshots (singular plan)] else [])
                       @ map channel_call (take k (channel_programs plan)))
                      (channel_call (channel_programs plan ! k)))"
    using eachw st2 by simp
  ultimately show ?thesis
    using l1 l2 l3 each by blast
qed

subsection \<open>Order of the individual targets\<close>

lemma dataset_below_less: "dataset_below d a \<Longrightarrow> a < d"
  by (auto simp: dataset_below_def prefix_def list_less_def intro: lexord_append_rightI)

lemma sorted_reverse_descending: "sorted_wrt (\<lambda>x y. x \<ge> y) (sorted_reverse xs)"
  by (simp add: sorted_reverse_def sorted_wrt_rev)

lemma sorted_reverse_mset: "mset (sorted_reverse xs) = mset xs"
  by (simp add: sorted_reverse_def)

lemma sorted_reverse_below_first:
  assumes "m < length (sorted_reverse xs)" "n < length (sorted_reverse xs)"
    and "dataset_below (sorted_reverse xs ! m) (sorted_reverse xs ! n)"
  shows "m < n"
proof (rule ccontr)
  assume "\<not> m < n"
  then consider "n = m" | "n < m" by linarith
  then show False
  proof cases
    case 1
    with dataset_below_less [OF assms(3)] show False by simp
  next
    case 2
    with sorted_reverse_descending [of xs] assms(1)
    have "sorted_reverse xs ! n \<ge> sorted_reverse xs ! m"
      by (simp add: sorted_wrt_iff_nth_less)
    with dataset_below_less [OF assms(3)] show False by simp
  qed
qed

lemma sorted_reverse_cong: "mset xs = mset ys \<Longrightarrow> sorted_reverse xs = sorted_reverse ys"
  unfolding sorted_reverse_def
  by (metis properties_for_sort sorted_sort mset_sort)

text \<open>
  C5, as the code has it. For a non-recursive request that passes validation (on an
  engine whose \<open>open_resource\<close> and \<open>unmount\<close> fail with \<open>ZFSException\<close>) the
  datasets and volumes are processed one after another in reverse lexicographic order
  of their path strings: each is opened, then unmounted with \<open>recursive\<close> false, then
  destroyed with \<open>destroy_resource\<close>, stopping at the first of these calls that fails,
  and these are the first engine calls of the execution. In that order a path that is
  another path followed by \<open>/\<close> and more comes before that path. The datasets
  \<open>tank/a/b/c\<close>, \<open>tank/a/b\<close>, \<open>tank/a\<close> are processed in exactly this order, and
  sorting \<open>[a/b/c, a/b, a]\<close> in reverse gives \<open>[a/b/c, a/b, a]\<close>.
\<close>

theorem deepest_first_order:
  assumes "\<not> recursive data" and "raises_zfs_only eng"
    and "validate_and_parse_destroy_args hip data = Inr plan"
  shows "\<exists>st segs vs. service_destroy hip eng data = Inr st
           \<and> fs_or_vols plan = filter (\<lambda>p. CHR ''@'' \<notin> set p) (paths data)
           \<and> length segs = length (fs_or_vols plan) \<and> length vs = length (fs_or_vols plan)
           \<and> (\<forall>k<length (fs_or_vols plan). (segs ! k, vs ! k)
                  = entry_outcome eng plan (concat (take k segs))
                      (sorted_reverse (fs_or_vols plan) ! k))
           \<and> (\<forall>i. entry_calls plan i
                  = [OpenResource i, Unmount i (force data) False, DestroyResource i])
           \<and> prefix (concat segs) (calls st)
           \<and> sorted_wrt (\<lambda>x y. x \<ge> y) (sorted_reverse (fs_or_vols plan))
           \<and> mset (sorted_reverse (fs_or_vols plan)) = mset (fs_or_vols plan)
           \<and> (\<forall>m n. m < length (fs_or_vols plan) \<and> n < length (fs_or_vols plan)
                  \<and> dataset_below (sorted_reverse (fs_or_vols plan) ! m)
                       (sorted_reverse (fs_or_vols plan) ! n) \<longrightarrow> m < n)
           \<and> (mset (fs_or_vols plan) = mset [''tank/a/b/c'', ''tank/a/b'', ''tank/a''] \<longrightarrow>
                sorted_reverse (fs_or_vols plan) = [''tank/a/b/c'', ''tank/a/b'', ''tank/a''])
           \<and> sorted_reverse [''a/b/c'', ''a/b'', ''a''] = [''a/b/c'', ''a/b'', ''a'']"
proof -
  from service_destroy_exact [OF assms(2,3)] obtain segs vs ws
    where l: "length segs = length (fs_or_vols plan)" "length vs = length (fs_or_vols plan)"
      and each: "\<forall>k<length (fs_or_vols plan). (segs ! k, vs ! k)
                  = entry_outcome eng plan (concat (take k segs))
                      (sorted_reverse (fs_or_vols plan) ! k)"
      and run: "service_destroy hip eng data
               = Inr \<lparr>results = record_all
                        (zip (sorted_reverse (fs_or_vols plan)) vs
                         @ map (\<lambda>p. (p, outcome (eng (concat segs)
                                                    (DestroySnapshots (singular plan)))))
                             (singular plan)
                         @ zip (map ca_path (channel_programs plan)) ws) [],
                      calls = concat segs
                        @ (if singular plan \<noteq> [] then [DestroySnapshots (singular plan)] else [])
                        @ map channel_call (channel_programs plan)\<rparr>"
    by blast
  from validated_plan [OF assms(3)]
  have fs: "fs_or_vols plan = filter (\<lambda>p. CHR ''@'' \<notin> set p) (paths data)"
    and rc: "recursive plan = recursive data" and fc: "force plan = force data"
    by simp_all
  have ec: "\<forall>i. entry_calls plan i
                  = [OpenResource i, Unmount i (force data) False, DestroyResource i]"
    using assms(1) rc fc by (simp add: entry_calls_def destroy_call_def)
  have len: "length (sorted_reverse (fs_or_vols plan)) = length (fs_or_vols plan)"
    by (simp add: sorted_reverse_def)
  have below: "\<forall>m n. m < length (fs_or_vols plan) \<and> n < length (fs_or_vols plan)
                  \<and> dataset_below (sorted_reverse (fs_or_vols plan) ! m)
                       (sorted_reverse (fs_or_vols plan) ! n) \<longrightarrow> m < n"
    using sorted_reverse_below_first [of _ "fs_or_vols plan"] len by auto
  have ex1: "sorted_reverse [''tank/a/b/c'', ''tank/a/b'', ''tank/a'']
             = [''tank/a/b/c'', ''tank/a/b'', ''tank/a'']"
    by code_simp
  have ex2: "sorted_reverse [''a/b/c'', ''a/b'', ''a''] = [''a/b/c'', ''a/b'', ''a'']"
    by code_simp
  have ex: "mset (fs_or_vols plan) = mset [''tank/a/b/c'', ''tank/a/b'', ''tank/a''] \<longrightarrow>
                sorted_reverse (fs_or_vols plan) = [''tank/a/b/c'', ''tank/a/b'', ''tank/a'']"
    using sorted_reverse_cong [of "fs_or_vols plan" "[''tank/a/b/c'', ''tank/a/b'', ''tank/a'']"]
      ex1 by simp
  have pre: "prefix (concat segs)
               (calls \<lparr>results = record_all
                        (zip (sorted_reverse (fs_or_vols plan)) vs
                         @ map (\<lambda>p. (p, outcome (eng (concat segs)
                                                    (DestroySnapshots (singular plan)))))
                             (singular plan)
                         @ zip (map ca_path (channel_programs plan)) ws) [],
                      calls = concat segs
                        @ (if singular plan \<noteq> [] then [DestroySnapshots (singular plan)] else [])
                        @ map channel_call (channel_programs plan)\<rparr>)"
    by simp
  from run l each fs ec pre below ex ex2 sorted_reverse_descending [of "fs_or_vols plan"]
    sorted_reverse_mset [of "fs_or_vols plan"]
  show ?thesis by blast
qed

theorem deepest_first_order_witness:
  "\<not> recursive \<lparr>paths = [''tank/a'', ''tank/a/b/c'', ''tank/a/b''], recursive = False,
        force = False, defer_arg = False, allow_destroy_internal_paths = False\<rparr>
   \<and> raises_zfs_only (\<lambda>_ _. None)
   \<and> validate_and_parse_destroy_args (\<lambda>_. False)
        \<lparr>paths = [''tank/a'', ''tank/a/b/c'', ''tank/a/b''], recursive = False,
         force = False, defer_arg = False, allow_destroy_internal_paths = False\<rparr>
      = Inr \<lparr>paths = [''tank/a'', ''tank/a/b/c'', ''tank/a/b''], recursive = False,
             force = False, defer_arg = False, allow_destroy_internal_paths = False,
             fs_or_vols = [''tank/a'', ''tank/a/b/c'', ''tank/a/b''], singular = [],
             channel_programs = []\<rparr>
   \<and> (\<exists>st segs. service_destroy (\<lambda>_. False) (\<lambda>_ _. None)
          \<lparr>paths = [''tank/a'', ''tank/a/b/c'', ''tank/a/b''], recursive = False,
           force = False, defer_arg = False, allow_destroy_internal_paths = False\<rparr> = Inr st
        \<and> length segs = 3
        \<and> prefix (concat segs) (calls st)
        \<and> sorted_reverse [''tank/a'', ''tank/a/b/c'', ''tank/a/b'']
            = [''tank/a/b/c'', ''tank/a/b'', ''tank/a''])"
proof -
  let ?data = "\<lparr>paths = [''tank/a'', ''tank/a/b/c'', ''tank/a/b''], recursive = False,
        force = False, defer_arg = False, allow_destroy_internal_paths = False\<rparr>"
  let ?plan = "\<lparr>paths = [''tank/a'', ''tank/a/b/c'', ''tank/a/b''], recursive = False,
             force = False, defer_arg = False, allow_destroy_internal_paths = False,
             fs_or_vols = [''tank/a'', ''tank/a/b/c'', ''tank/a/b''], singular = [],
             channel_programs = []\<rparr>"
  have rz: "raises_zfs_only (\<lambda>_ _. None)"
    by (simp add: raises_zfs_only_def)
  have v: "validate_and_parse_destroy_args (\<lambda>_. False) ?data = Inr ?plan"
    by code_simp
  have nr: "\<not> recursive ?data"
    by simp
  have ms: "mset [''tank/a'', ''tank/a/b/c'', ''tank/a/b'']
        = mset [''tank/a/b/c'', ''tank/a/b'', ''tank/a'']"
    by (simp add: add_mset_commute)
  have "\<exists>st segs. service_destroy (\<lambda>_. False) (\<lambda>_ _. None) ?data = Inr st
        \<and> length segs = length (fs_or_vols ?plan)
        \<and> prefix (concat segs) (calls st)
        \<and> (mset (fs_or_vols ?plan) = mset [''tank/a/b/c'', ''tank/a/b'', ''tank/a'']
       \<longrightarrow> sorted_reverse (fs_or_vols ?plan) = [''tank/a/b/c'', ''tank/a/b'', ''tank/a''])"
    using deepest_first_order [OF nr rz v]
    by (elim exE conjE) (intro exI conjI; assumption)
  then obtain st segs where run: "service_destroy (\<lambda>_. False) (\<lambda>_ _. None) ?data = Inr st"
    and l: "length segs = length (fs_or_vols ?plan)"
    and pre: "prefix (concat segs) (calls st)"
    and ex: "mset (fs_or_vols ?plan) = mset [''tank/a/b/c'', ''tank/a/b'', ''tank/a'']
       \<longrightarrow> sorted_reverse (fs_or_vols ?plan) = [''tank/a/b/c'', ''tank/a/b'', ''tank/a'']"
    by blast
  from l have l3: "length segs = 3" by simp
  from ex ms have sr: "sorted_reverse [''tank/a'', ''tank/a/b/c'', ''tank/a/b'']
            = [''tank/a/b/c'', ''tank/a/b'', ''tank/a'']"
    by simp
  from run l3 pre sr
  have "\<exists>st segs. service_destroy (\<lambda>_. False) (\<lambda>_ _. None) ?data = Inr st
        \<and> length segs = 3
        \<and> prefix (concat segs) (calls st)
        \<and> sorted_reverse [''tank/a'', ''tank/a/b/c'', ''tank/a/b'']
            = [''tank/a/b/c'', ''tank/a/b'', ''tank/a'']"
    by (intro exI conjI)
  with rz v nr show ?thesis by (intro conjI)
qed

text \<open>
  The claim C5 as stated fails. Component-wise \<open>tank/a\<close> is a strict ancestor of
  \<open>tank//a/b\<close>, and the request of both is valid, yet \<open>tank/a\<close> is processed first:
  the order is that of the strings. And the request of \<open>a/b/c\<close>, \<open>a/b\<close> and \<open>a\<close> is
  rejected, \<open>a\<close> being the name of a pool, so that nothing is processed.
\<close>

theorem ancestor_processed_first:
  "strict_ancestor ''tank/a'' ''tank//a/b''
   \<and> service_destroy (\<lambda>_. False) (\<lambda>_ _. None)
       \<lparr>paths = [''tank//a/b'', ''tank/a''], recursive = False, force = False,
        defer_arg = False, allow_destroy_internal_paths = False\<rparr>
     = Inr \<lparr>results = [(''tank/a'', None), (''tank//a/b'', None)],
            calls = [OpenResource ''tank/a'', Unmount ''tank/a'' False False,
                     DestroyResource ''tank/a'',
                     OpenResource ''tank//a/b'', Unmount ''tank//a/b'' False False,
                     DestroyResource ''tank//a/b'']\<rparr>
   \<and> service_destroy (\<lambda>_. False) (\<lambda>_ _. None)
       \<lparr>paths = [''a/b/c'', ''a/b'', ''a''], recursive = False, force = False,
        defer_arg = False, allow_destroy_internal_paths = False\<rparr>
     = Inl (ValidationError ''zfs.resource.destroy'' DestroyingZpoolsNotAllowed)"
  by code_simp

subsection \<open>Recursive requests\<close>

text \<open>
  C6, as the code has it. With \<open>recursive\<close> true (and an engine whose \<open>open_resource\<close>
  and \<open>unmount\<close> fail with \<open>ZFSException\<close>) each dataset or volume is first opened and
  unmounted recursively. When both succeed, exactly one channel program
  \<open>DESTROY_RESOURCES\<close> is run on it, with \<open>recursive\<close> true and no pattern, and its
  failure message, or \<open>None\<close>, is recorded under the target's path. When opening or
  unmounting fails, that failure is recorded under the target's path and no destroy
  operation is issued for it. \<open>destroy_resource\<close> is never called.
\<close>

theorem recursive_entry_bulk:
  assumes "recursive args" and "raises_zfs_only eng"
  shows "(\<exists>st'. destroy_fs_or_vol eng args i st = Inr st'
           \<and> (if eng (calls st) (OpenResource i) = None
                 \<and> eng (calls st @ [OpenResource i]) (Unmount i (force args) True) = None
               then calls st' = calls st @
                      [OpenResource i, Unmount i (force args) True,
                       RunChannelProgram (hd (split_on CHR ''/'' i)) DESTROY_RESOURCES
                         \<lparr>sa_recursive = True, sa_target = i, sa_defer = defer_arg args,
                          sa_pattern = None\<rparr> False]
                  \<and> results st' = AList.update i
                       (map_option (\<lambda>e. Message (str_exn e))
                          (eng (calls st @ [OpenResource i, Unmount i (force args) True])
                             (RunChannelProgram (hd (split_on CHR ''/'' i)) DESTROY_RESOURCES
                                \<lparr>sa_recursive = True, sa_target = i, sa_defer = defer_arg args,
                                 sa_pattern = None\<rparr> False)))
                       (results st)
               else (calls st' = calls st @ [OpenResource i]
                     \<or> calls st' = calls st @ [OpenResource i, Unmount i (force args) True])
                  \<and> (\<exists>f. results st' = AList.update i (Some f) (results st))))
       \<and> (\<exists>st segs. destroy_fs_or_vols eng args st0 = Inr st
             \<and> calls st = calls st0 @ concat segs
             \<and> list_all2 (\<lambda>i seg. seg \<noteq> [] \<and> prefix seg
                   [OpenResource i, Unmount i (force args) True,
                    RunChannelProgram (hd (split_on CHR ''/'' i)) DESTROY_RESOURCES
                      \<lparr>sa_recursive = True, sa_target = i, sa_defer = defer_arg args,
                       sa_pattern = None\<rparr> False])
                 (sorted_reverse (fs_or_vols args)) segs)"
proof (rule conjI)
  show "\<exists>st'. destroy_fs_or_vol eng args i st = Inr st'
           \<and> (if eng (calls st) (OpenResource i) = None
                 \<and> eng (calls st @ [OpenResource i]) (Unmount i (force args) True) = None
               then calls st' = calls st @
                      [OpenResource i, Unmount i (force args) True,
                       RunChannelProgram (hd (split_on CHR ''/'' i)) DESTROY_RESOURCES
                         \<lparr>sa_recursive = True, sa_target = i, sa_defer = defer_arg args,
                          sa_pattern = None\<rparr> False]
                  \<and> results st' = AList.update i
                       (map_option (\<lambda>e. Message (str_exn e))
                          (eng (calls st @ [OpenResource i, Unmount i (force args) True])
                             (RunChannelProgram (hd (split_on CHR ''/'' i)) DESTROY_RESOURCES
                                \<lparr>sa_recursive = True, sa_target = i, sa_defer = defer_arg args,
                                 sa_pattern = None\<rparr> False)))
                       (results st)
               else (calls st' = calls st @ [OpenResource i]
                     \<or> calls st' = calls st @ [OpenResource i, Unmount i (force args) True])
                  \<and> (\<exists>f. results st' = AList.update i (Some f) (results st)))"
  proof (cases "eng (calls st) (OpenResource i)")
    case (Some e)
    with raises_zfs_only_open [OF assms(2)] obtain code msg where "e = ZFSException code msg"
      by (cases e) auto
    with Some show ?thesis
      by (auto simp: destroy_fs_or_vol_def invoke_def results_update_def)
  next
    case None
    note opened = this
    show ?thesis
    proof (cases "eng (calls st @ [OpenResource i]) (Unmount i (force args) True)")
      case (Some e)
      with raises_zfs_only_unmount [OF assms(2)] obtain code msg where "e = ZFSException code msg"
        by (cases e) auto
      with Some opened assms(1) show ?thesis
        by (auto simp: destroy_fs_or_vol_def invoke_def results_update_def)
    next
      case None
      with opened assms(1) show ?thesis
        by (cases "eng (calls st @ [OpenResource i, Unmount i (force args) True])
                     (RunChannelProgram (hd (split_on CHR ''/'' i)) DESTROY_RESOURCES
                        \<lparr>sa_recursive = True, sa_target = i, sa_defer = defer_arg args,
                         sa_pattern = None\<rparr> False)")
           (simp_all add: destroy_fs_or_vol_def invoke_def results_update_def destroy_call_def)
    qed
  qed
next
  from destroy_each_trace [OF assms(2), of args "sorted_reverse (fs_or_vols args)" st0]
  obtain st segs where "destroy_fs_or_vols eng args st0 = Inr st"
    and "calls st = calls st0 @ concat segs"
    and "list_all2 (entry_segment args) (sorted_reverse (fs_or_vols args)) segs"
    by (auto simp: destroy_fs_or_vols_def)
  moreover have "entry_segment args = (\<lambda>i seg. seg \<noteq> [] \<and> prefix seg
                   [OpenResource i, Unmount i (force args) True,
                    RunChannelProgram (hd (split_on CHR ''/'' i)) DESTROY_RESOURCES
                      \<lparr>sa_recursive = True, sa_target = i, sa_defer = defer_arg args,
                       sa_pattern = None\<rparr> False])"
    using assms(1) by (simp add: entry_segment_def entry_calls_def destroy_call_def fun_eq_iff)
  ultimately show "\<exists>st segs. destroy_fs_or_vols eng args st0 = Inr st
             \<and> calls st = calls st0 @ concat segs
             \<and> list_all2 (\<lambda>i seg. seg \<noteq> [] \<and> prefix seg
                   [OpenResource i, Unmount i (force args) True,
                    RunChannelProgram (hd (split_on CHR ''/'' i)) DESTROY_RESOURCES
                      \<lparr>sa_recursive = True, sa_target = i, sa_defer = defer_arg args,
                       sa_pattern = None\<rparr> False])
                 (sorted_reverse (fs_or_vols args)) segs"
    by auto
qed

theorem recursive_entry_bulk_witness:
  "recursive \<lparr>paths = [''tank/a''], recursive = True, force = False,
         defer_arg = False, allow_destroy_internal_paths = False,
         fs_or_vols = [''tank/a''], singular = [], channel_programs = []\<rparr>
   \<and> raises_zfs_only (\<lambda>_ _. None)
   \<and> (\<exists>st'. destroy_fs_or_vol (\<lambda>_ _. None)
          \<lparr>paths = [''tank/a''], recursive = True, force = False,
           defer_arg = False, allow_destroy_internal_paths = False,
           fs_or_vols = [''tank/a''], singular = [], channel_programs = []\<rparr>
          ''tank/a'' \<lparr>results = [], calls = []\<rparr> = Inr st'
        \<and> calls st' = [OpenResource ''tank/a'', Unmount ''tank/a'' False True,
                        RunChannelProgram (hd (split_on CHR ''/'' ''tank/a'')) DESTROY_RESOURCES
                          \<lparr>sa_recursive = True, sa_target = ''tank/a'', sa_defer = False,
                           sa_pattern = None\<rparr> False]
        \<and> results st' = [(''tank/a'', None)])"
proof -
  have rz: "raises_zfs_only (\<lambda>_ _. None)"
    by (simp add: raises_zfs_only_def)
  from recursive_entry_bulk [of
      "\<lparr>paths = [''tank/a''], recursive = True, force = False,
         defer_arg = False, allow_destroy_internal_paths = False,
         fs_or_vols = [''tank/a''], singular = [], channel_programs = []\<rparr>"
      "\<lambda>_ _. None" "''tank/a''" "\<lparr>results = [], calls = []\<rparr>" "\<lparr>results = [], calls = []\<rparr>"] rz
  show ?thesis by simp
qed

text \<open>
  The claim C6 as stated fails: the channel program is not the only engine operation on
  a target, which is opened and unmounted first; and when the unmount fails, no channel
  program is run for it at all.
\<close>

theorem recursive_entry_opened_and_unmounted:
  "service_destroy (\<lambda>_. False) (\<lambda>_ _. None)
     \<lparr>paths = [''tank/a''], recursive = True, force = False, defer_arg = False,
      allow_destroy_internal_paths = False\<rparr>
   = Inr \<lparr>results = [(''tank/a'', None)],
          calls = [OpenResource ''tank/a'', Unmount ''tank/a'' False True,
                   RunChannelProgram ''tank'' DESTROY_RESOURCES
                     \<lparr>sa_recursive = True, sa_target = ''tank/a'', sa_defer = False,
                      sa_pattern = None\<rparr> False]\<rparr>
   \<and> service_destroy (\<lambda>_. False)
       (\<lambda>_ c. if c = Unmount ''tank/a'' False True
               then Some (ZFSException EZFS_BUSY ''pool or dataset is busy'') else None)
       \<lparr>paths = [''tank/a''], recursive = True, force = False, defer_arg = False,
        allow_destroy_internal_paths = False\<rparr>
     = Inr \<lparr>results = [(''tank/a'', Some (Message ''pool or dataset is busy''))],
            calls = [OpenResource ''tank/a'', Unmount ''tank/a'' False True]\<rparr>"
  by code_simp

subsection \<open>Every outcome becomes an entry of the result\<close>

text \<open>
  Around \<open>open_resource\<close> and \<open>unmount\<close> only \<open>ZFSException\<close> is caught: another
  exception raised there leaves \<open>__destroy_fs_or_vols\<close>.
\<close>

lemma other_exception_propagates:
  "eng (calls s) (OpenResource i) = Some (OtherException msg) \<Longrightarrow>
   destroy_fs_or_vol eng plan i s = Inl (OtherException msg)"
  by (simp add: destroy_fs_or_vol_def invoke_def)




subsection \<open>The keys of the result\<close>

text \<open>
  C1, as the code has it. For a validated request (on an engine whose \<open>open_resource\<close>
  and \<open>unmount\<close> fail with \<open>ZFSException\<close>) the result has every key once. Its keys
  include every requested dataset or volume and every requested snapshot that is run as
  a channel program (wildcard name, or \<open>recursive\<close> true) and whose source is not a
  requested dataset or volume. When no snapshot goes to the batch of literal snapshots,
  that is when \<open>recursive\<close> is true or every requested snapshot whose source is not a
  requested dataset or volume has the wildcard name, the keys are exactly these paths:
  a snapshot whose source is a requested dataset or volume then has no key.
\<close>

theorem result_covers_planned_paths:
  assumes "raises_zfs_only eng"
    and "validate_and_parse_destroy_args hip data = Inr plan"
  shows "\<exists>st. service_destroy hip eng data = Inr st
           \<and> distinct (map fst (results st))
           \<and> fs_or_vols plan = filter (\<lambda>p. CHR ''@'' \<notin> set p) (paths data)
           \<and> set (fs_or_vols plan) \<subseteq> keys (results st)
           \<and> {p \<in> set (paths data). CHR ''@'' \<in> set p
                 \<and> snap_source p \<notin> set (fs_or_vols plan)
                 \<and> (snap_name p = ''*'' \<or> recursive data)} \<subseteq> keys (results st)
           \<and> (recursive data
                 \<or> (\<forall>p\<in>set (paths data). CHR ''@'' \<in> set p
                        \<and> snap_source p \<notin> set (fs_or_vols plan) \<longrightarrow> snap_name p = ''*'')
               \<longrightarrow>
                keys (results st) = set (fs_or_vols plan)
                  \<union> {p \<in> set (paths data). CHR ''@'' \<in> set p
                         \<and> snap_source p \<notin> set (fs_or_vols plan)})"
proof -
  from service_destroy_trace [OF assms] obtain st
    where st: "service_destroy hip eng data = Inr st"
      and k: "keys (results st)
               = set (fs_or_vols plan) \<union> set (singular plan)
                   \<union> ca_path ` set (channel_programs plan)"
      and d: "distinct (map fst (results st))"
    by blast
  from validated_plan [OF assms(2)]
  have fs: "fs_or_vols plan = filter (\<lambda>p. CHR ''@'' \<notin> set p) (paths data)"
    and cp: "map ca_path (channel_programs plan) =
             filter (\<lambda>i. snap_source i \<notin> set (fs_or_vols plan)
                          \<and> (snap_name i = ''*'' \<or> recursive data))
               (filter (\<lambda>p. CHR ''@'' \<in> set p) (paths data))"
    by simp_all
  have "ca_path ` set (channel_programs plan) = set (map ca_path (channel_programs plan))"
    by simp
  also have "\<dots> = {p \<in> set (paths data). CHR ''@'' \<in> set p
                 \<and> snap_source p \<notin> set (fs_or_vols plan)
                 \<and> (snap_name p = ''*'' \<or> recursive data)}"
    unfolding cp by auto
  finally have cps: "ca_path ` set (channel_programs plan) =
      {p \<in> set (paths data). CHR ''@'' \<in> set p
                 \<and> snap_source p \<notin> set (fs_or_vols plan)
                 \<and> (snap_name p = ''*'' \<or> recursive data)}" .
  have "set (fs_or_vols plan) \<subseteq> keys (results st)"
    using k by blast
  moreover have "{p \<in> set (paths data). CHR ''@'' \<in> set p
                 \<and> snap_source p \<notin> set (fs_or_vols plan)
                 \<and> (snap_name p = ''*'' \<or> recursive data)} \<subseteq> keys (results st)"
    using k cps by blast
  moreover have "recursive data
                 \<or> (\<forall>p\<in>set (paths data). CHR ''@'' \<in> set p
                        \<and> snap_source p \<notin> set (fs_or_vols plan) \<longrightarrow> snap_name p = ''*'')
               \<longrightarrow>
                keys (results st) = set (fs_or_vols plan)
                  \<union> {p \<in> set (paths data). CHR ''@'' \<in> set p
                         \<and> snap_source p \<notin> set (fs_or_vols plan)}"
  proof
    assume c: "recursive data
                 \<or> (\<forall>p\<in>set (paths data). CHR ''@'' \<in> set p
                        \<and> snap_source p \<notin> set (fs_or_vols plan) \<longrightarrow> snap_name p = ''*'')"
    then have "filter (\<lambda>i. snap_source i \<notin> set (fs_or_vols plan)
                                    \<and> snap_name i \<noteq> ''*'' \<and> \<not> recursive data)
                        (filter (\<lambda>p. CHR ''@'' \<in> set p) (paths data)) = []"
      by (auto simp: filter_empty_conv)
    with validated_singular [OF assms(2)] have "singular plan = []" by simp
    with k cps c show "keys (results st) = set (fs_or_vols plan)
                  \<union> {p \<in> set (paths data). CHR ''@'' \<in> set p
                         \<and> snap_source p \<notin> set (fs_or_vols plan)}"
      by auto
  qed
  ultimately show ?thesis
    using st d fs by blast
qed

theorem result_covers_planned_paths_witness:
  "raises_zfs_only (\<lambda>_ _. None)
   \<and> validate_and_parse_destroy_args (\<lambda>_. False)
        \<lparr>paths = [''tank/a'', ''tank/a@snap'', ''tank/y@*''], recursive = False, force = False,
         defer_arg = False, allow_destroy_internal_paths = False\<rparr>
      = Inr \<lparr>paths = [''tank/a'', ''tank/a@snap'', ''tank/y@*''], recursive = False,
             force = False, defer_arg = False, allow_destroy_internal_paths = False,
             fs_or_vols = [''tank/a''], singular = [],
             channel_programs =
               [\<lparr>ca_path = ''tank/y@*'', ca_pool_name = ''tank'', ca_readonly = False,
                 ca_script_arguments_dict =
                   \<lparr>sa_recursive = False, sa_target = ''tank/y'', sa_defer = False,
                    sa_pattern = None\<rparr>\<rparr>]\<rparr>
   \<and> (\<exists>st. service_destroy (\<lambda>_. False) (\<lambda>_ _. None)
          \<lparr>paths = [''tank/a'', ''tank/a@snap'', ''tank/y@*''], recursive = False, force = False,
           defer_arg = False, allow_destroy_internal_paths = False\<rparr> = Inr st
        \<and> distinct (map fst (results st))
        \<and> keys (results st) = {''tank/a'', ''tank/y@*''})"
proof -
  have rz: "raises_zfs_only (\<lambda>_ _. None)"
    by (simp add: raises_zfs_only_def)
  have v: "validate_and_parse_destroy_args (\<lambda>_. False)
        \<lparr>paths = [''tank/a'', ''tank/a@snap'', ''tank/y@*''], recursive = False, force = False,
         defer_arg = False, allow_destroy_internal_paths = False\<rparr>
      = Inr \<lparr>paths = [''tank/a'', ''tank/a@snap'', ''tank/y@*''], recursive = False,
             force = False, defer_arg = False, allow_destroy_internal_paths = False,
             fs_or_vols = [''tank/a''], singular = [],
             channel_programs =
               [\<lparr>ca_path = ''tank/y@*'', ca_pool_name = ''tank'', ca_readonly = False,
                 ca_script_arguments_dict =
                   \<lparr>sa_recursive = False, sa_target = ''tank/y'', sa_defer = False,
                    sa_pattern = None\<rparr>\<rparr>]\<rparr>"
    by code_simp
  have ss: "snap_source ''tank/y@*'' = ''tank/y''" "snap_name ''tank/y@*'' = ''*''"
    "snap_source ''tank/a@snap'' = ''tank/a''"
    by (simp_all add: snap_source_def snap_name_def)
  from result_covers_planned_paths [OF rz v] obtain st where
    "service_destroy (\<lambda>_. False) (\<lambda>_ _. None)
          \<lparr>paths = [''tank/a'', ''tank/a@snap'', ''tank/y@*''], recursive = False, force = False,
           defer_arg = False, allow_destroy_internal_paths = False\<rparr> = Inr st"
    "distinct (map fst (results st))"
    "(\<forall>p\<in>{''tank/a'', ''tank/a@snap'', ''tank/y@*''}. CHR ''@'' \<in> set p
                        \<and> snap_source p \<notin> {''tank/a''} \<longrightarrow> snap_name p = ''*'')
     \<longrightarrow> keys (results st) = {''tank/a''}
           \<union> {p \<in> {''tank/a'', ''tank/a@snap'', ''tank/y@*''}. CHR ''@'' \<in> set p
                         \<and> snap_source p \<notin> {''tank/a''}}"
    by auto
  moreover have "(\<forall>p\<in>{''tank/a'', ''tank/a@snap'', ''tank/y@*''}. CHR ''@'' \<in> set p
                        \<and> snap_source p \<notin> {''tank/a''} \<longrightarrow> snap_name p = ''*'')"
    using ss by simp
  moreover have "{''tank/a''}
           \<union> {p \<in> {''tank/a'', ''tank/a@snap'', ''tank/y@*''}. CHR ''@'' \<in> set p
                         \<and> snap_source p \<notin> {''tank/a''}} = {''tank/a'', ''tank/y@*''}"
    using ss by auto
  ultimately show ?thesis using rz v by auto
qed

text \<open>
  The claim C1 as stated fails: the snapshot \<open>tank/a@snap\<close> requested together with
  its source \<open>tank/a\<close> is dropped from the plan and is no key of the result.
\<close>

theorem dropped_snapshot_has_no_key:
  "service_destroy (\<lambda>_. False) (\<lambda>_ _. None)
     \<lparr>paths = [''tank/a'', ''tank/a@snap''], recursive = False, force = False,
      defer_arg = False, allow_destroy_internal_paths = False\<rparr>
   = Inr \<lparr>results = [(''tank/a'', None)],
          calls = [OpenResource ''tank/a'', Unmount ''tank/a'' False False,
                   DestroyResource ''tank/a'']\<rparr>
   \<and> ''tank/a@snap'' \<notin> keys [(''tank/a'', None :: failure option)]"
  by (rule conjI, code_simp, simp add: keys_def)

section \<open>Nesting query results\<close>

lemma mset_three_cases:
  assumes "mset xs = mset [a, b, c]"
  shows "xs \<in> {[a, b, c], [a, c, b], [b, a, c], [b, c, a], [c, a, b], [c, b, a]}"
proof -
  from assms have "length xs = 3"
    by (metis length_Cons list.size(3) numeral_3_eq_3 size_mset)
  then obtain x y z where xs: "xs = [x, y, z]"
    by (cases xs; cases "tl xs"; cases "tl (tl xs)") auto
  with assms have "{#x, y, z#} = {#a, b, c#}" by simp
  then show ?thesis
    unfolding xs by (auto simp: add_eq_conv_ex)
qed

text \<open>
  C8. In whatever order the three records \<open>tank\<close>, \<open>tank/a\<close> and \<open>tank/a/b\<close> (each of
  pool \<open>tank\<close>, without children) are given, nesting yields the single root \<open>tank\<close>,
  whose only child is \<open>tank/a\<close>, whose only child is \<open>tank/a/b\<close>.
\<close>

theorem nest_any_order:
  assumes "mset flat_list = mset [Node ''tank'' ''tank'' [], Node ''tank/a'' ''tank'' [],
                                  Node ''tank/a/b'' ''tank'' []]"
  shows "nested_value flat_list
         = Some [Node ''tank'' ''tank'' [Node ''tank/a'' ''tank'' [Node ''tank/a/b'' ''tank'' []]]]"
proof -
  have 1: "nested_value [Node ''tank'' ''tank'' [], Node ''tank/a'' ''tank'' [],
                         Node ''tank/a/b'' ''tank'' []]
         = Some [Node ''tank'' ''tank'' [Node ''tank/a'' ''tank'' [Node ''tank/a/b'' ''tank'' []]]]"
    by code_simp
  have 2: "nested_value [Node ''tank'' ''tank'' [], Node ''tank/a/b'' ''tank'' [],
                         Node ''tank/a'' ''tank'' []]
         = Some [Node ''tank'' ''tank'' [Node ''tank/a'' ''tank'' [Node ''tank/a/b'' ''tank'' []]]]"
    by code_simp
  have 3: "nested_value [Node ''tank/a'' ''tank'' [], Node ''tank'' ''tank'' [],
                         Node ''tank/a/b'' ''tank'' []]
         = Some [Node ''tank'' ''tank'' [Node ''tank/a'' ''tank'' [Node ''tank/a/b'' ''tank'' []]]]"
    by code_simp
  have 4: "nested_value [Node ''tank/a'' ''tank'' [], Node ''tank/a/b'' ''tank'' [],
                         Node ''tank'' ''tank'' []]
         = Some [Node ''tank'' ''tank'' [Node ''tank/a'' ''tank'' [Node ''tank/a/b'' ''tank'' []]]]"
    by code_simp
  have 5: "nested_value [Node ''tank/a/b'' ''tank'' [], Node ''tank'' ''tank'' [],
                         Node ''tank/a'' ''tank'' []]
         = Some [Node ''tank'' ''tank'' [Node ''tank/a'' ''tank'' [Node ''tank/a/b'' ''tank'' []]]]"
    by code_simp
  have 6: "nested_value [Node ''tank/a/b'' ''tank'' [], Node ''tank/a'' ''tank'' [],
                         Node ''tank'' ''tank'' []]
         = Some [Node ''tank'' ''tank'' [Node ''tank/a'' ''tank'' [Node ''tank/a/b'' ''tank'' []]]]"
    by code_simp
  from mset_three_cases [OF assms] 1 2 3 4 5 6 show ?thesis
    by (elim insertE) simp_all
qed

theorem nest_any_order_witness:
  "nested_value [Node ''tank/a/b'' ''tank'' [], Node ''tank'' ''tank'' [],
                 Node ''tank/a'' ''tank'' []]
   = Some [Node ''tank'' ''tank'' [Node ''tank/a'' ''tank'' [Node ''tank/a/b'' ''tank'' []]]]"
  by (rule nest_any_order) simp

end
